theory Spec2Isabelle
  imports Main "HOL-Library.Word"
begin

section \<open>The page driver as seen by the automation code\<close>

text \<open>
  The source (\<^verbatim>\<open>src/notebooklm_cli/cli.py\<close>) drives a browser page through
  Playwright. What the code can observe of a page is the answer to
  \<^verbatim>\<open>page.query_selector_all(sel)\<close> for a selector string: the matching elements
  in document order, or an exception. \<^verbatim>\<open>page.query_selector(sel)\<close> is the first
  of them, or \<^verbatim>\<open>None\<close>. Of an element the code reads \<^verbatim>\<open>is_visible()\<close> and
  \<^verbatim>\<open>inner_text()\<close>, each of which may raise (a detached element, a closed page).

  A Python \<^verbatim>\<open>str\<close> is modelled as an Isabelle \<open>string\<close> whose characters are
  code points below 256, so that \<open>length\<close> is Python's \<^verbatim>\<open>len\<close>. A selector is
  only ever handed to the page, never inspected, so the selector literals of the
  source are written in ASCII with a character outside ASCII spelled \<^verbatim>\<open>U+XXXX\<close>.
\<close>

datatype error = PlaywrightError | OSError | NotADirectoryError | FileExistsError

record element =
  el_id :: nat
  is_visible :: "error + bool"
  inner_text :: "error + string"

type_synonym selector = string

type_synonym page = "selector \<Rightarrow> error + element list"

definition query_selector_all :: "page \<Rightarrow> selector \<Rightarrow> error + element list" where
  "query_selector_all pg sel = pg sel"

definition query_selector :: "page \<Rightarrow> selector \<Rightarrow> error + element option" where
  "query_selector pg sel =
     (case pg sel of
        Inl e \<Rightarrow> Inl e
      | Inr [] \<Rightarrow> Inr None
      | Inr (x # _) \<Rightarrow> Inr (Some x))"

text \<open>
  The test \<^verbatim>\<open>el and el.is_visible()\<close>: \<^verbatim>\<open>None\<close> is falsy and
  \<^verbatim>\<open>is_visible()\<close> is not called; an element handle is truthy.
\<close>

definition and_is_visible :: "element option \<Rightarrow> error + bool" where
  "and_is_visible el = (case el of None \<Rightarrow> Inr False | Some x \<Rightarrow> is_visible x)"

text \<open>One probe: \<^verbatim>\<open>el = page.query_selector(sel)\<close> followed by the test above.\<close>

definition probe :: "page \<Rightarrow> selector \<Rightarrow> error + bool" where
  "probe pg sel =
     (case query_selector pg sel of
        Inl e \<Rightarrow> Inl e
      | Inr el \<Rightarrow> and_is_visible el)"

section \<open>Search state and UI mode detection\<close>

definition view_btn_selector :: selector where
  \<open>view_btn_selector = ''button:has-text("U+67E5U+770B")''\<close>

definition search_selectors :: "selector list" where
  \<open>search_selectors =
     [''textarea[aria-label="U+57FAU+4E8EU+8F93U+5165U+7684U+67E5U+8BE2U+53D1U+73B0U+6765U+6E90"]'',
      ''textarea[placeholder*="U+5728U+7F51U+7EDCU+4E2DU+641CU+7D22U+65B0U+6765U+6E90"]'']\<close>

text \<open>
  The loop of \<^verbatim>\<open>detect_search_state\<close> over \<^verbatim>\<open>search_selectors\<close>: the first
  selector whose first match is visible returns \<^verbatim>\<open>'READY'\<close>; the end of the list
  falls through to \<^verbatim>\<open>return 'UNKNOWN'\<close>.
\<close>

fun search_input_loop :: "page \<Rightarrow> selector list \<Rightarrow> error + string" where
  "search_input_loop pg [] = Inr ''UNKNOWN''"
| "search_input_loop pg (sel # sels) =
     (case query_selector pg sel of
        Inl e \<Rightarrow> Inl e
      | Inr search_input \<Rightarrow>
          (case and_is_visible search_input of
             Inl e \<Rightarrow> Inl e
           | Inr True \<Rightarrow> Inr ''READY''
           | Inr False \<Rightarrow> search_input_loop pg sels))"

text \<open>The body of the \<^verbatim>\<open>try\<close> block of \<^verbatim>\<open>detect_search_state\<close>.\<close>

definition detect_search_state_try :: "page \<Rightarrow> error + string" where
  "detect_search_state_try pg =
     (case query_selector pg view_btn_selector of
        Inl e \<Rightarrow> Inl e
      | Inr view_btn \<Rightarrow>
          (case and_is_visible view_btn of
             Inl e \<Rightarrow> Inl e
           | Inr True \<Rightarrow> Inr ''PENDING_RESULTS''
           | Inr False \<Rightarrow> search_input_loop pg search_selectors))"

text \<open>The bare \<^verbatim>\<open>except:\<close> turns every exception into \<^verbatim>\<open>'UNKNOWN'\<close>.\<close>

definition detect_search_state :: "page \<Rightarrow> string" where
  "detect_search_state pg =
     (case detect_search_state_try pg of Inl _ \<Rightarrow> ''UNKNOWN'' | Inr s \<Rightarrow> s)"

definition source_search_selector :: selector where
  \<open>source_search_selector =
     ''textarea[placeholder*="U+641CU+7D22U+65B0U+6765U+6E90"], input[placeholder*="U+641CU+7D22U+65B0U+6765U+6E90"]''\<close>

definition chat_input_selector :: selector where
  \<open>chat_input_selector =
     ''textarea[placeholder*="U+5F00U+59CBU+8F93U+5165"], textarea[aria-label="U+67E5U+8BE2U+6846"]''\<close>

text \<open>
  The body of the \<^verbatim>\<open>try\<close> block of \<^verbatim>\<open>detect_mode\<close>. Both queries run
  before either visibility test.
\<close>

definition detect_mode_try :: "page \<Rightarrow> error + string" where
  "detect_mode_try pg =
     (case query_selector pg source_search_selector of
        Inl e \<Rightarrow> Inl e
      | Inr source_search \<Rightarrow>
          (case query_selector pg chat_input_selector of
             Inl e \<Rightarrow> Inl e
           | Inr chat_input \<Rightarrow>
               (case and_is_visible source_search of
                  Inl e \<Rightarrow> Inl e
                | Inr True \<Rightarrow> Inr ''source_search''
                | Inr False \<Rightarrow>
                    (case and_is_visible chat_input of
                       Inl e \<Rightarrow> Inl e
                     | Inr True \<Rightarrow> Inr ''chat''
                     | Inr False \<Rightarrow> Inr ''unknown''))))"

definition detect_mode :: "page \<Rightarrow> string" where
  "detect_mode pg =
     (case detect_mode_try pg of Inl _ \<Rightarrow> ''unknown'' | Inr s \<Rightarrow> s)"


text \<open>Pages used as concrete inputs.\<close>

definition shown :: "nat \<Rightarrow> element" where
  "shown n = \<lparr>el_id = n, is_visible = Inr True, inner_text = Inr []\<rparr>"

definition hidden :: "nat \<Rightarrow> element" where
  "hidden n = \<lparr>el_id = n, is_visible = Inr False, inner_text = Inr []\<rparr>"

definition empty_page :: page where
  "empty_page = (\<lambda>sel. Inr [])"

definition broken_page :: page where
  "broken_page = (\<lambda>sel. Inl PlaywrightError)"

definition pending_page :: page where
  "pending_page = empty_page (view_btn_selector := Inr [shown 1], hd search_selectors := Inr [shown 2])"

definition ready_page :: page where
  "ready_page = empty_page (view_btn_selector := Inr [hidden 1], search_selectors ! 1 := Inr [shown 2])"

section \<open>Probe chains\<close>

text \<open>
  \<^verbatim>\<open>select_source_type\<close> and \<^verbatim>\<open>search_sources\<close> resolve an element through a
  list of selectors with the same loop:
  \<^verbatim>\<open>
  type_btn = None
  for sel in type_btn_selectors:
      type_btn = self.page.query_selector(sel)
      if type_btn and type_btn.is_visible():
          break
  \<close>
  The variable is assigned on every iteration, so after a loop that never breaks it
  holds what the last selector returned. The third argument is the variable.
\<close>

fun probe_chain_loop :: "page \<Rightarrow> selector list \<Rightarrow> element option \<Rightarrow> error + element option" where
  "probe_chain_loop pg [] cur = Inr cur"
| "probe_chain_loop pg (sel # sels) cur =
     (case query_selector pg sel of
        Inl e \<Rightarrow> Inl e
      | Inr el \<Rightarrow>
          (case and_is_visible el of
             Inl e \<Rightarrow> Inl e
           | Inr True \<Rightarrow> Inr el
           | Inr False \<Rightarrow> probe_chain_loop pg sels el))"

definition type_btn_selectors :: "selector list" where
  \<open>type_btn_selectors =
     [''button:has-text("language")'',
      ''button:has(span:text("language"))'',
      ''[aria-label*="U+6765U+6E90U+7C7BU+578B"]'',
      ''[aria-label*="source type"]'']\<close>

definition search_input_selectors :: "selector list" where
  \<open>search_input_selectors =
     [''textarea[aria-label="U+57FAU+4E8EU+8F93U+5165U+7684U+67E5U+8BE2U+53D1U+73B0U+6765U+6E90"]'',
      ''textarea[placeholder*="U+5728U+7F51U+7EDCU+4E2DU+641CU+7D22U+65B0U+6765U+6E90"]'',
      ''textarea[aria-label*="U+53D1U+73B0U+6765U+6E90"]'',
      ''textarea[aria-label*="U+67E5U+8BE2U+53D1U+73B0"]'',
      ''textarea[placeholder*="U+641CU+7D22U+65B0U+6765U+6E90"]'']\<close>

text \<open>
  The element \<^verbatim>\<open>select_source_type\<close> goes on to click (lines 1051 to 1061), and the
  element \<^verbatim>\<open>search_sources\<close> holds in \<^verbatim>\<open>search_input\<close> after its first loop
  (lines 1502 to 1507).
\<close>

definition select_source_type_btn :: "page \<Rightarrow> error + element option" where
  "select_source_type_btn pg = probe_chain_loop pg type_btn_selectors None"

definition search_sources_input :: "page \<Rightarrow> error + element option" where
  "search_sources_input pg = probe_chain_loop pg search_input_selectors None"

text \<open>
  The evaluation policy in the words of the specification, for comparison with the
  loop of the source: query each probe for its candidates, keep the visible ones, and
  return the first visible candidate of the first probe that has one.
\<close>

definition candidates :: "page \<Rightarrow> selector \<Rightarrow> element list" where
  "candidates pg sel = (case pg sel of Inl _ \<Rightarrow> [] | Inr xs \<Rightarrow> xs)"

definition currently_visible :: "element \<Rightarrow> bool" where
  "currently_visible x \<longleftrightarrow> is_visible x = Inr True"

fun spec_first_visible_candidate :: "page \<Rightarrow> selector list \<Rightarrow> element option" where
  "spec_first_visible_candidate pg [] = None"
| "spec_first_visible_candidate pg (sel # sels) =
     (case filter currently_visible (candidates pg sel) of
        [] \<Rightarrow> spec_first_visible_candidate pg sels
      | x # _ \<Rightarrow> Some x)"

definition second_candidate_page :: page where
  "second_candidate_page =
     empty_page (type_btn_selectors ! 0 := Inr [hidden 1, shown 2],
                 type_btn_selectors ! 1 := Inr [shown 3])"

definition fallback_page :: page where
  "fallback_page =
     empty_page (type_btn_selectors ! 0 := Inr [hidden 1],
                 type_btn_selectors ! 1 := Inr [shown 2])"

section \<open>Search state detection in the words of the specification\<close>





section \<open>Clearing pending search results\<close>

text \<open>
  Actions change what the page shows. The browser is a state \<open>'w\<close> with the page it
  currently shows; a click or a key press gives the next state or raises, and
  \<^verbatim>\<open>page.wait_for_timeout(ms)\<close> lets the remote application move on. Where an
  action raises, the state is taken to be the one before the action.
\<close>

record 'w driver =
  page_of :: "'w \<Rightarrow> page"
  click :: "element \<Rightarrow> 'w \<Rightarrow> error + 'w"
  keyboard_press :: "string \<Rightarrow> 'w \<Rightarrow> error + 'w"
  wait_for_timeout :: "nat \<Rightarrow> 'w \<Rightarrow> 'w"

text \<open>
  \<^verbatim>\<open>str.strip()\<close> removes leading and trailing whitespace; the code points below
  256 for which \<^verbatim>\<open>str.isspace()\<close> holds are 9 to 13, 28 to 32, 133 and 160.
  \<^verbatim>\<open>sub in s\<close> is the substring test.
\<close>

definition isspace :: "char \<Rightarrow> bool" where
  "isspace c \<longleftrightarrow>
     (let n = (of_char c :: nat)
      in (9 \<le> n \<and> n \<le> 13) \<or> (28 \<le> n \<and> n \<le> 32) \<or> n = 133 \<or> n = 160)"

definition strip :: "string \<Rightarrow> string" where
  "strip s = rev (dropWhile isspace (rev (dropWhile isspace s)))"

fun startswith :: "string \<Rightarrow> string \<Rightarrow> bool" where
  "startswith s [] = True"
| "startswith [] (p # ps) = False"
| "startswith (c # cs) (p # ps) = (c = p \<and> startswith cs ps)"

fun str_contains :: "string \<Rightarrow> string \<Rightarrow> bool" where
  "str_contains sub [] = (sub = [])"
| "str_contains sub (c # cs) = (startswith (c # cs) sub \<or> str_contains sub cs)"

text \<open>
  The loop over all buttons that looks for the delete button. An exception inside
  one iteration is swallowed and the loop goes on. The source tests three needles;
  the first is the two characters U+5220 U+9664, which a text of code points below
  256 never contains, so two tests remain.
\<close>

fun delete_btn_loop :: "element list \<Rightarrow> element option" where
  "delete_btn_loop [] = None"
| "delete_btn_loop (btn # btns) =
     (case is_visible btn of
        Inr True \<Rightarrow>
          (case inner_text btn of
             Inr t \<Rightarrow>
               (let text = strip t
                in if str_contains ''Delete'' text \<or> str_contains ''Remove'' text
                   then Some btn
                   else delete_btn_loop btns)
           | Inl _ \<Rightarrow> delete_btn_loop btns)
      | Inr False \<Rightarrow> delete_btn_loop btns
      | Inl _ \<Rightarrow> delete_btn_loop btns)"

definition confirm_selectors :: "selector list" where
  \<open>confirm_selectors =
     [''button:has-text("U+786EU+8BA4")'',
      ''button:has-text("U+786EU+5B9A")'',
      ''button:has-text("Confirm")'',
      ''button:has-text("OK")'',
      ''button:has-text("Yes")'']\<close>

text \<open>
  The confirmation loop: the first selector with a visible first match is clicked,
  followed by a wait of two seconds. The result is the exception raised, if any, and
  the state reached.
\<close>

fun confirm_loop :: "'w driver \<Rightarrow> 'w \<Rightarrow> selector list \<Rightarrow> error option \<times> 'w" where
  "confirm_loop d w [] = (None, w)"
| "confirm_loop d w (sel # sels) =
     (case query_selector (page_of d w) sel of
        Inl e \<Rightarrow> (Some e, w)
      | Inr None \<Rightarrow> confirm_loop d w sels
      | Inr (Some confirm_btn) \<Rightarrow>
          (case is_visible confirm_btn of
             Inl e \<Rightarrow> (Some e, w)
           | Inr False \<Rightarrow> confirm_loop d w sels
           | Inr True \<Rightarrow>
               (case click d confirm_btn w of
                  Inl e \<Rightarrow> (Some e, w)
                | Inr w1 \<Rightarrow> (None, wait_for_timeout d 2000 w1))))"

text \<open>
  \<^verbatim>\<open>clear_temp_sources\<close>: the value returned and the state of the browser
  afterwards. Every exception ends in \<^verbatim>\<open>return False\<close>.
\<close>

definition clear_temp_sources :: "'w driver \<Rightarrow> 'w \<Rightarrow> bool \<times> 'w" where
  "clear_temp_sources d w =
     (let state = detect_search_state (page_of d w)
      in if state = ''READY'' then (True, w)
         else if state \<noteq> ''PENDING_RESULTS'' then (False, w)
         else
           (case query_selector_all (page_of d w) ''button'' of
              Inl e \<Rightarrow> (False, w)
            | Inr buttons \<Rightarrow>
                (case delete_btn_loop buttons of
                   None \<Rightarrow>
                     (case keyboard_press d ''Escape'' w of
                        Inl e \<Rightarrow> (False, w)
                      | Inr w1 \<Rightarrow> (False, wait_for_timeout d 500 w1))
                 | Some delete_btn \<Rightarrow>
                     (case click d delete_btn w of
                        Inl e \<Rightarrow> (False, w)
                      | Inr w1 \<Rightarrow>
                          (case confirm_loop d (wait_for_timeout d 1000 w1) confirm_selectors of
                             (Some e, w3) \<Rightarrow> (False, w3)
                           | (None, w3) \<Rightarrow>
                               (let w4 = wait_for_timeout d 1000 w3;
                                    final_state = detect_search_state (page_of d w4)
                                in if final_state = ''READY'' then (True, w4)
                                   else (final_state \<noteq> ''PENDING_RESULTS'', w4)))))))"

text \<open>
  A browser with two states for concrete runs: in state 0 the page holds pending
  results and a visible Delete button, whose click leads to state 1, where the search
  input is available.
\<close>

definition delete_button :: element where
  "delete_button = \<lparr>el_id = 5, is_visible = Inr True, inner_text = Inr '' Delete ''\<rparr>"

definition two_state_driver :: "nat driver" where
  "two_state_driver =
     \<lparr>page_of = (\<lambda>w. if w = 0 then pending_page (''button'' := Inr [delete_button])
                      else ready_page),
      click = (\<lambda>el w. if el_id el = 5 then Inr 1 else Inr w),
      keyboard_press = (\<lambda>key w. Inr w),
      wait_for_timeout = (\<lambda>ms w. w)\<rparr>"

section \<open>Waiting for a generated response\<close>

text \<open>
  \<^verbatim>\<open>smart_chat\<close> from its second phase on (lines 1974 to 2089): the polling loop that
  waits for the response to be complete, the extra waits, and the value returned.
  The phases before (opening the notebook, sending the question, waiting for the
  generation to start) only bring the browser to the state the loop starts in.
\<close>

definition stop_btn_selectors :: "selector list" where
  \<open>stop_btn_selectors =
     [''button:has-text("U+505CU+6B62U+751FU+6210")'',
      ''button:has-text("Stop generating")'',
      ''button:has-text("Stop")'',
      ''[aria-label*="U+505CU+6B62U+751FU+6210"]'']\<close>

definition loading_selectors :: "selector list" where
  \<open>loading_selectors =
     [''.loading-indicator'',
      ''[class*="loading"]'',
      ''[class*="spinner"]'',
      ''[class*="generating"]'']\<close>

text \<open>
  Both signal loops set a flag at the first selector whose first match is visible:
  \<^verbatim>\<open>
  for sel in stop_btn_selectors:
      el = self.page.query_selector(sel)
      if el and el.is_visible():
          stop_btn_visible = True
          break
  \<close>
\<close>

fun any_visible_loop :: "page \<Rightarrow> selector list \<Rightarrow> error + bool" where
  "any_visible_loop pg [] = Inr False"
| "any_visible_loop pg (sel # sels) =
     (case query_selector pg sel of
        Inl e \<Rightarrow> Inl e
      | Inr el \<Rightarrow>
          (case and_is_visible el of
             Inl e \<Rightarrow> Inl e
           | Inr True \<Rightarrow> Inr True
           | Inr False \<Rightarrow> any_visible_loop pg sels))"

definition response_selectors :: "selector list" where
  \<open>response_selectors =
     [''[data-message-role="assistant"]'',
      ''.assistant-message'',
      ''.response-content'',
      ''.message-content'',
      ''[class*="response"]'',
      ''[class*="answer"]'',
      ''[class*="chat-message"]'',
      ''.chat-response'']\<close>

text \<open>
  \<^verbatim>\<open>_get_latest_response_text\<close>. The inner loop runs over the reversed list of
  messages and returns the first stripped text that is longer than 30 characters and
  does not contain the placeholder; an exception of \<^verbatim>\<open>inner_text()\<close> skips the
  message. An exception of \<^verbatim>\<open>query_selector_all\<close> ends in \<^verbatim>\<open>return ""\<close>.
\<close>

fun latest_message_loop :: "element list \<Rightarrow> string option" where
  "latest_message_loop [] = None"
| "latest_message_loop (msg # msgs) =
     (case inner_text msg of
        Inl _ \<Rightarrow> latest_message_loop msgs
      | Inr t \<Rightarrow>
          (let text = strip t
           in if text \<noteq> [] \<and> length text > 30 \<and> \<not> str_contains ''Getting the context'' text
              then Some text
              else latest_message_loop msgs))"

fun response_selector_loop :: "page \<Rightarrow> selector list \<Rightarrow> error + string" where
  "response_selector_loop pg [] = Inr []"
| "response_selector_loop pg (sel # sels) =
     (case query_selector_all pg sel of
        Inl e \<Rightarrow> Inl e
      | Inr messages \<Rightarrow>
          (case latest_message_loop (rev messages) of
             Some text \<Rightarrow> Inr text
           | None \<Rightarrow> response_selector_loop pg sels))"

definition get_latest_response_text :: "page \<Rightarrow> string" where
  "get_latest_response_text pg =
     (case response_selector_loop pg response_selectors of Inl _ \<Rightarrow> [] | Inr text \<Rightarrow> text)"

text \<open>What one tick of the loop observes of the page.\<close>

record observation =
  stop_btn_visible :: bool
  loading_visible :: bool
  current_text :: string

definition observe :: "page \<Rightarrow> error + observation" where
  "observe pg =
     (case any_visible_loop pg stop_btn_selectors of
        Inl e \<Rightarrow> Inl e
      | Inr stop \<Rightarrow>
          (case any_visible_loop pg loading_selectors of
             Inl e \<Rightarrow> Inl e
           | Inr loading \<Rightarrow>
               Inr \<lparr>stop_btn_visible = stop, loading_visible = loading,
                    current_text = get_latest_response_text pg\<rparr>))"

definition STABLE_THRESHOLD :: nat where
  "STABLE_THRESHOLD = 5"

text \<open>
  The state of the loop is the pair \<^verbatim>\<open>(last_text, stable_count)\<close>. The text check
  runs only for a text longer than 50 characters:
  \<^verbatim>\<open>
  if current_text and len(current_text) > 50:
      if current_text == last_text:
          stable_count += 1
      else:
          stable_count = 0
          last_text = current_text
  \<close>
\<close>

definition nontrivial :: "observation \<Rightarrow> bool" where
  "nontrivial ob \<longleftrightarrow> current_text ob \<noteq> [] \<and> length (current_text ob) > 50"

definition text_check :: "observation \<Rightarrow> string \<times> nat \<Rightarrow> string \<times> nat" where
  "text_check ob st =
     (case st of (last_text, stable_count) \<Rightarrow>
        if nontrivial ob
        then (if current_text ob = last_text then (last_text, stable_count + 1)
              else (current_text ob, 0))
        else (last_text, stable_count))"

text \<open>The condition of the \<^verbatim>\<open>break\<close>, on the counter the text check left.\<close>

definition completion_condition :: "observation \<Rightarrow> nat \<Rightarrow> bool" where
  "completion_condition ob stable_count \<longleftrightarrow>
     (\<not> stop_btn_visible ob \<and> \<not> loading_visible ob \<and> stable_count \<ge> 3)
     \<or> stable_count \<ge> STABLE_THRESHOLD"

text \<open>
  One iteration after the observation: whether the loop breaks, and the state it
  leaves. The \<^verbatim>\<open>break\<close> sits inside the text check; an iteration that goes on
  resets the counter when the stop button or a loading indicator is visible.
\<close>

definition tick :: "observation \<Rightarrow> string \<times> nat \<Rightarrow> bool \<times> string \<times> nat" where
  "tick ob st =
     (case text_check ob st of (last_text, stable_count) \<Rightarrow>
        if nontrivial ob \<and> completion_condition ob stable_count
        then (True, last_text, stable_count)
        else (False, last_text,
              if stop_btn_visible ob \<or> loading_visible ob then 0 else stable_count))"

text \<open>
  \<^verbatim>\<open>for i in range(max_wait)\<close>: the first argument counts the iterations left, the
  second is \<open>i\<close>. The result is the number \<open>i + 1\<close> of the tick at which the loop
  broke (the number the source prints), or \<open>None\<close> when the range was exhausted, with
  the state of the browser and of the loop.
\<close>

fun wait_loop ::
  "'w driver \<Rightarrow> nat \<Rightarrow> nat \<Rightarrow> 'w \<Rightarrow> string \<times> nat \<Rightarrow> error + (nat option \<times> 'w \<times> string \<times> nat)" where
  "wait_loop d 0 i w st = Inr (None, w, st)"
| "wait_loop d (Suc n) i w st =
     (let w1 = wait_for_timeout d 1000 w
      in case observe (page_of d w1) of
           Inl e \<Rightarrow> Inl e
         | Inr ob \<Rightarrow>
             (case tick ob st of
                (True, st') \<Rightarrow> Inr (Some (i + 1), w1, st')
              | (False, st') \<Rightarrow> wait_loop d n (Suc i) w1 st'))"

text \<open>
  The fallback of the last phase reads the whole chat area and keeps the stripped
  non-empty lines after the first line that contains the placeholder.
\<close>

definition chat_area_selector :: selector where
  \<open>chat_area_selector = ''[class*="chat-container"], [class*="conversation"], main''\<close>

fun split_newline :: "string \<Rightarrow> string list" where
  "split_newline [] = [[]]"
| "split_newline (c # cs) =
     (if c = CHR 0x0A then [] # split_newline cs
      else (case split_newline cs of
              [] \<Rightarrow> [[c]]
            | l # ls \<Rightarrow> (c # l) # ls))"

fun capture_loop :: "string list \<Rightarrow> bool \<Rightarrow> string list" where
  "capture_loop [] capture = []"
| "capture_loop (line # lines) capture =
     (if str_contains ''Getting the context'' line then capture_loop lines True
      else if capture \<and> strip line \<noteq> [] then strip line # capture_loop lines capture
      else capture_loop lines capture)"

fun join_newline :: "string list \<Rightarrow> string" where
  "join_newline [] = []"
| "join_newline [l] = l"
| "join_newline (l # ls) = l @ CHR 0x0A # join_newline ls"

definition chat_area_fallback :: "page \<Rightarrow> error + string" where
  "chat_area_fallback pg =
     (case query_selector pg chat_area_selector of
        Inl e \<Rightarrow> Inl e
      | Inr None \<Rightarrow> Inr []
      | Inr (Some chat_area) \<Rightarrow>
          (case inner_text chat_area of
             Inl e \<Rightarrow> Inl e
           | Inr full_text \<Rightarrow>
               (let response_lines = capture_loop (split_newline full_text) False
                in if response_lines \<noteq> [] then Inr (join_newline response_lines)
                   else Inr [])))"

text \<open>
  Phases 3 and 4: wait three seconds, read the text, wait two seconds, read it again,
  wait five more seconds if the two differ, then read the value to return. This code
  follows the loop however the loop ended. \<^verbatim>\<open>_check_response_actions\<close> only prints.
\<close>

definition final_world :: "'w driver \<Rightarrow> 'w \<Rightarrow> 'w" where
  "final_world d w =
     (let w1 = wait_for_timeout d 3000 w;
          final_check_text = get_latest_response_text (page_of d w1);
          w2 = wait_for_timeout d 2000 w1;
          final_check_text2 = get_latest_response_text (page_of d w2)
      in if final_check_text \<noteq> final_check_text2 then wait_for_timeout d 5000 w2 else w2)"

definition final_phases :: "'w driver \<Rightarrow> 'w \<Rightarrow> error + string" where
  "final_phases d w =
     (let w3 = final_world d w;
          final_response = get_latest_response_text (page_of d w3)
      in if final_response \<noteq> [] then Inr final_response
         else chat_area_fallback (page_of d w3))"

text \<open>
  The value \<^verbatim>\<open>smart_chat\<close> returns from the state in which the loop starts; any
  exception ends in \<^verbatim>\<open>return ""\<close>. \<^verbatim>\<open>max_wait\<close> is a Python integer, and a
  range over a negative one is empty.
\<close>

definition smart_chat_from_phase2 :: "'w driver \<Rightarrow> int \<Rightarrow> 'w \<Rightarrow> string" where
  "smart_chat_from_phase2 d max_wait w =
     (case wait_loop d (nat max_wait) 0 w ([], 0) of
        Inl e \<Rightarrow> []
      | Inr (broke_at, w', st) \<Rightarrow>
          (case final_phases d w' of Inl e \<Rightarrow> [] | Inr response \<Rightarrow> response))"







text \<open>
  A simulated response for concrete runs: the browser state is the time in
  milliseconds, and at second \<open>s\<close> the page shows one assistant message with the text
  \<open>texts s\<close> and neither a stop button nor a loading indicator.
\<close>

definition text_page :: "string \<Rightarrow> page" where
  \<open>text_page t =
     empty_page (''[data-message-role="assistant"]'' :=
        Inr [\<lparr>el_id = 0, is_visible = Inr True, inner_text = Inr t\<rparr>])\<close>

definition stream_driver :: "(nat \<Rightarrow> string) \<Rightarrow> nat driver" where
  "stream_driver texts =
     \<lparr>page_of = (\<lambda>w. text_page (texts (w div 1000))),
      click = (\<lambda>el w. Inr w),
      keyboard_press = (\<lambda>key w. Inr w),
      wait_for_timeout = (\<lambda>ms w. w + ms)\<rparr>"

definition answer_a :: string where
  "answer_a = ''The first draft of the answer is still being written out here.''"

definition answer_b :: string where
  "answer_b = ''The second draft of the answer is what the page shows for now.''"

definition answer_final :: string where
  "answer_final = ''The final answer has been written out completely by the model.''"

definition quiet :: "string \<Rightarrow> observation" where
  "quiet t = \<lparr>stop_btn_visible = False, loading_visible = False, current_text = t\<rparr>"



text \<open>
  Simulated responses. \<open>changing_texts\<close> alternates between two drafts up to second 9
  and shows the final answer from second 10 on; \<open>short_texts\<close> ends in a short final
  answer; \<open>paused_texts\<close> shows one draft up to second 9; \<open>steady_texts\<close> shows the
  final answer throughout; \<open>late_texts\<close> alternates up to second 4.
\<close>

definition changing_texts :: "nat \<Rightarrow> string" where
  "changing_texts s = (if 10 \<le> s then answer_final else if even s then answer_a else answer_b)"

definition short_texts :: "nat \<Rightarrow> string" where
  "short_texts s = (if 10 \<le> s then ''Yes, it does.'' else ''Let me check'')"

definition paused_texts :: "nat \<Rightarrow> string" where
  "paused_texts s = (if 10 \<le> s then answer_final else answer_a)"

definition steady_texts :: "nat \<Rightarrow> string" where
  "steady_texts s = answer_final"

definition late_texts :: "nat \<Rightarrow> string" where
  "late_texts s = (if 5 \<le> s then answer_final else if even s then answer_a else answer_b)"

text \<open>What the ticks of a simulated response observe.\<close>

definition stream_obs :: "(nat \<Rightarrow> string) \<Rightarrow> nat \<Rightarrow> observation" where
  "stream_obs texts k = quiet (get_latest_response_text (text_page (texts k)))"

section \<open>Instance names\<close>

unbundle bit_operations_syntax

text \<open>
  \<^verbatim>\<open>notebook_name.encode()\<close> is the UTF-8 encoding: a code point below 128 is one
  byte, a code point from 128 to 255 two bytes. Bytes are natural numbers below 256.
\<close>

definition utf8_encode :: "string \<Rightarrow> nat list" where
  "utf8_encode s =
     concat (map (\<lambda>c. let n = (of_char c :: nat)
                      in if n < 128 then [n] else [192 + n div 64, 128 + n mod 64]) s)"

text \<open>
  \<^verbatim>\<open>hashlib.md5\<close> is the MD5 message digest of RFC 1321, on 32-bit words. The
  message is padded with the byte 128, zero bytes up to 56 modulo 64, and its length
  in bits as 8 bytes, least significant first; each block of 64 bytes is read as 16
  words, least significant byte first, and run through 64 steps.
\<close>

fun le_bytes :: "nat \<Rightarrow> nat \<Rightarrow> nat list" where
  "le_bytes 0 x = []"
| "le_bytes (Suc n) x = x mod 256 # le_bytes n (x div 256)"

definition md5_pad :: "nat list \<Rightarrow> nat list" where
  "md5_pad m =
     m @ [128] @ replicate ((119 - length m mod 64) mod 64) 0 @ le_bytes 8 (8 * length m)"

fun le_word :: "nat list \<Rightarrow> 32 word" where
  "le_word [] = 0"
| "le_word (b # bs) = of_nat b + 256 * le_word bs"

fun md5_words :: "nat \<Rightarrow> nat list \<Rightarrow> 32 word list" where
  "md5_words 0 bs = []"
| "md5_words (Suc n) bs = le_word (take 4 bs) # md5_words n (drop 4 bs)"

fun md5_blocks :: "nat \<Rightarrow> nat list \<Rightarrow> 32 word list list" where
  "md5_blocks 0 bs = []"
| "md5_blocks (Suc n) bs = md5_words 16 (take 64 bs) # md5_blocks n (drop 64 bs)"

definition md5_K :: "32 word list" where
  "md5_K = [
      0xd76aa478, 0xe8c7b756, 0x242070db, 0xc1bdceee, 0xf57c0faf, 0x4787c62a, 0xa8304613, 0xfd469501,
      0x698098d8, 0x8b44f7af, 0xffff5bb1, 0x895cd7be, 0x6b901122, 0xfd987193, 0xa679438e, 0x49b40821,
      0xf61e2562, 0xc040b340, 0x265e5a51, 0xe9b6c7aa, 0xd62f105d, 0x02441453, 0xd8a1e681, 0xe7d3fbc8,
      0x21e1cde6, 0xc33707d6, 0xf4d50d87, 0x455a14ed, 0xa9e3e905, 0xfcefa3f8, 0x676f02d9, 0x8d2a4c8a,
      0xfffa3942, 0x8771f681, 0x6d9d6122, 0xfde5380c, 0xa4beea44, 0x4bdecfa9, 0xf6bb4b60, 0xbebfbc70,
      0x289b7ec6, 0xeaa127fa, 0xd4ef3085, 0x04881d05, 0xd9d4d039, 0xe6db99e5, 0x1fa27cf8, 0xc4ac5665,
      0xf4292244, 0x432aff97, 0xab9423a7, 0xfc93a039, 0x655b59c3, 0x8f0ccc92, 0xffeff47d, 0x85845dd1,
      0x6fa87e4f, 0xfe2ce6e0, 0xa3014314, 0x4e0811a1, 0xf7537e82, 0xbd3af235, 0x2ad7d2bb, 0xeb86d391]"

definition md5_s :: "nat list" where
  "md5_s = [
      7, 12, 17, 22, 7, 12, 17, 22,
      7, 12, 17, 22, 7, 12, 17, 22,
      5, 9, 14, 20, 5, 9, 14, 20,
      5, 9, 14, 20, 5, 9, 14, 20,
      4, 11, 16, 23, 4, 11, 16, 23,
      4, 11, 16, 23, 4, 11, 16, 23,
      6, 10, 15, 21, 6, 10, 15, 21,
      6, 10, 15, 21, 6, 10, 15, 21]"

definition rotl32 :: "nat \<Rightarrow> 32 word \<Rightarrow> 32 word" where
  "rotl32 n x = push_bit n x OR drop_bit (32 - n) x"

type_synonym md5_state = "32 word \<times> 32 word \<times> 32 word \<times> 32 word"

definition md5_step :: "32 word list \<Rightarrow> nat \<Rightarrow> md5_state \<Rightarrow> md5_state" where
  "md5_step M i st =
     (case st of (a, b, c, d) \<Rightarrow>
        let (f, g) =
              (if i < 16 then ((b AND c) OR (NOT b AND d), i)
               else if i < 32 then ((d AND b) OR (NOT d AND c), (5 * i + 1) mod 16)
               else if i < 48 then (b XOR c XOR d, (3 * i + 5) mod 16)
               else (c XOR (b OR NOT d), (7 * i) mod 16));
            f' = f + a + md5_K ! i + M ! g
        in (d, b + rotl32 (md5_s ! i) f', b, c))"

fun md5_steps :: "32 word list \<Rightarrow> nat \<Rightarrow> nat \<Rightarrow> md5_state \<Rightarrow> md5_state" where
  "md5_steps M 0 i st = st"
| "md5_steps M (Suc n) i st = md5_steps M n (Suc i) (md5_step M i st)"

definition md5_block :: "md5_state \<Rightarrow> 32 word list \<Rightarrow> md5_state" where
  "md5_block st M =
     (case st of (a0, b0, c0, d0) \<Rightarrow>
        case md5_steps M 64 0 st of (a, b, c, d) \<Rightarrow> (a0 + a, b0 + b, c0 + c, d0 + d))"

definition md5_init :: md5_state where
  "md5_init = (0x67452301, 0xefcdab89, 0x98badcfe, 0x10325476)"

definition md5 :: "nat list \<Rightarrow> md5_state" where
  "md5 m = (let p = md5_pad m in foldl md5_block md5_init (md5_blocks (length p div 64) p))"

text \<open>
  \<^verbatim>\<open>hexdigest()\<close>: the four words, least significant byte first, two lower-case
  hexadecimal digits a byte.
\<close>

definition hex_digit :: "nat \<Rightarrow> char" where
  "hex_digit n = ''0123456789abcdef'' ! n"

definition hex_byte :: "nat \<Rightarrow> string" where
  "hex_byte b = [hex_digit (b div 16 mod 16), hex_digit (b mod 16)]"

definition hex_word :: "32 word \<Rightarrow> string" where
  "hex_word x = concat (map hex_byte (le_bytes 4 (unat x)))"

definition hexdigest :: "md5_state \<Rightarrow> string" where
  "hexdigest st =
     (case st of (a, b, c, d) \<Rightarrow> hex_word a @ hex_word b @ hex_word c @ hex_word d)"

text \<open>
  \<^verbatim>\<open>re.match(r'^(\d+)[.\s]', notebook_name)\<close>: the longest run of decimal digits at
  the start of the name, when it is not empty and the character after it is a full
  stop or a whitespace character. A shorter run of digits is followed by a digit, so
  the group of a match is the longest run. Of the code points below 256 the decimal
  digits are 48 to 57, and \<^verbatim>\<open>\s\<close> matches what \<^verbatim>\<open>str.isspace()\<close> holds for.
\<close>

definition isdigit :: "char \<Rightarrow> bool" where
  "isdigit c \<longleftrightarrow> (let n = (of_char c :: nat) in 48 \<le> n \<and> n \<le> 57)"

definition prefix_match :: "string \<Rightarrow> string option" where
  "prefix_match notebook_name =
     (let digits = takeWhile isdigit notebook_name;
          rest = dropWhile isdigit notebook_name
      in if digits \<noteq> [] \<and> rest \<noteq> [] \<and> (hd rest = CHR ''.'' \<or> isspace (hd rest))
         then Some digits else None)"

definition notebook_to_instance :: "string \<Rightarrow> string" where
  "notebook_to_instance notebook_name =
     (case prefix_match notebook_name of
        Some group1 \<Rightarrow> ''nb_'' @ group1
      | None \<Rightarrow>
          (let name_hash = take 8 (hexdigest (md5 (utf8_encode notebook_name)))
           in ''nb_'' @ name_hash))"

section \<open>The global lock\<close>

text \<open>
  \<^verbatim>\<open>_acquire_lock\<close> creates the directory of the lock file, opens the file, and polls
  \<^verbatim>\<open>fcntl.flock(fd, LOCK_EX | LOCK_NB)\<close>, which either grants the caller the
  exclusive lock or raises \<^verbatim>\<open>OSError\<close> at once. What the function meets of its
  environment: what \<^verbatim>\<open>mkdir\<close> and \<^verbatim>\<open>open\<close> raise, if anything; for each call of
  \<^verbatim>\<open>flock\<close>, counted from 0, whether it raises; and by how many milliseconds the
  iteration with that call takes longer than the two seconds of \<^verbatim>\<open>time.sleep(2)\<close>,
  which sleeps at least the time asked for. The clock does not go back.
\<close>

record lock_env =
  mkdir_error :: "error option"
  open_error :: "error option"
  flock_fails :: "nat \<Rightarrow> bool"
  overslept :: "nat \<Rightarrow> nat"

text \<open>
  How the function ends: \<open>Returned k\<close> is the \<^verbatim>\<open>return\<close> after call \<open>k\<close> of
  \<^verbatim>\<open>flock\<close> has granted the lock, \<open>Exited c\<close> is \<^verbatim>\<open>sys.exit(c)\<close>, and \<open>Raised e\<close> an
  exception that leaves the function.
\<close>

datatype outcome = Returned nat | Exited int | Raised error

text \<open>
  The loop \<^verbatim>\<open>while True\<close>, with the number of the call of \<^verbatim>\<open>flock\<close> and the time
  elapsed since \<^verbatim>\<open>start_time\<close>, in milliseconds; \<^verbatim>\<open>timeout\<close> is in seconds. The time
  left to the timeout decreases with every iteration.
\<close>

function acquire_loop :: "lock_env \<Rightarrow> int \<Rightarrow> nat \<Rightarrow> nat \<Rightarrow> outcome" where
  "acquire_loop e timeout k elapsed =
     (if \<not> flock_fails e k then Returned k
      else if 1000 * timeout \<le> int elapsed then Exited 1
      else acquire_loop e timeout (Suc k) (elapsed + (2000 + overslept e k)))"
  by pat_completeness auto

termination
  by (relation "measure (\<lambda>(e, timeout, k, elapsed). nat (1000 * timeout - int elapsed))") auto

declare acquire_loop.simps [simp del]

definition acquire_lock :: "lock_env \<Rightarrow> int \<Rightarrow> outcome" where
  "acquire_lock e timeout =
     (case mkdir_error e of
        Some err \<Rightarrow> Raised err
      | None \<Rightarrow>
          (case open_error e of
             Some err \<Rightarrow> Raised err
           | None \<Rightarrow> acquire_loop e timeout 0 0))"

text \<open>The time elapsed, in milliseconds, when call \<open>k\<close> of \<^verbatim>\<open>flock\<close> is made.\<close>

fun elapsed_at :: "lock_env \<Rightarrow> nat \<Rightarrow> nat" where
  "elapsed_at e 0 = 0"
| "elapsed_at e (Suc k) = elapsed_at e k + (2000 + overslept e k)"

text \<open>
  Environments for concrete runs: the lock is held by another process during the
  first \<open>n\<close> calls of \<^verbatim>\<open>flock\<close>; it is held for ever; the lock file cannot be opened.
\<close>

definition busy_for :: "nat \<Rightarrow> lock_env" where
  "busy_for n =
     \<lparr>mkdir_error = None, open_error = None, flock_fails = (\<lambda>k. k < n),
      overslept = (\<lambda>k. 0)\<rparr>"

definition busy_for_ever :: lock_env where
  "busy_for_ever =
     \<lparr>mkdir_error = None, open_error = None, flock_fails = (\<lambda>k. True),
      overslept = (\<lambda>k. 0)\<rparr>"

definition unopenable :: lock_env where
  "unopenable =
     \<lparr>mkdir_error = None, open_error = Some OSError, flock_fails = (\<lambda>k. False),
      overslept = (\<lambda>k. 0)\<rparr>"

section \<open>Instance profiles\<close>

text \<open>
  \<^verbatim>\<open>auto_init_instance_profile\<close> works on the filesystem below the home directory,
  which is modelled as a tree: a node is a file with its content or a directory with
  its entries, in the order \<^verbatim>\<open>iterdir()\<close> yields them. A path is the list of its
  components, from the home directory. There are no symbolic links, and an operation
  fails only for what the tree holds. \<^verbatim>\<open>instance_name\<close> and \<^verbatim>\<open>browser_type\<close> are
  single path components.
\<close>

datatype node = File string | Dir "(string \<times> node) list"

type_synonym path = "string list"

fun lookup :: "node \<Rightarrow> path \<Rightarrow> node option" where
  "lookup n [] = Some n"
| "lookup (File c) (x # p) = None"
| "lookup (Dir es) (x # p) = (case map_of es x of None \<Rightarrow> None | Some ch \<Rightarrow> lookup ch p)"

text \<open>\<^verbatim>\<open>Path.exists()\<close> and \<^verbatim>\<open>Path.is_dir()\<close> are false for a path through a file.\<close>

definition exists :: "node \<Rightarrow> path \<Rightarrow> bool" where
  "exists fs p \<longleftrightarrow> lookup fs p \<noteq> None"

definition is_dir :: "node \<Rightarrow> path \<Rightarrow> bool" where
  "is_dir fs p \<longleftrightarrow> (case lookup fs p of Some (Dir es) \<Rightarrow> True | _ \<Rightarrow> False)"

text \<open>
  \<^verbatim>\<open>Path.iterdir()\<close> yields the names of the entries and raises for a file
  (\<^verbatim>\<open>NotADirectoryError\<close>) and for a missing path (\<^verbatim>\<open>FileNotFoundError\<close>, an
  \<^verbatim>\<open>OSError\<close>).
\<close>

definition iterdir :: "node \<Rightarrow> path \<Rightarrow> error + string list" where
  "iterdir fs p =
     (case lookup fs p of
        Some (Dir es) \<Rightarrow> Inr (map fst es)
      | Some (File c) \<Rightarrow> Inl NotADirectoryError
      | None \<Rightarrow> Inl OSError)"

text \<open>The test \<^verbatim>\<open>p.exists() and any(p.iterdir())\<close>; a path object is truthy.\<close>

definition exists_and_any :: "node \<Rightarrow> path \<Rightarrow> error + bool" where
  "exists_and_any fs p =
     (if exists fs p
      then (case iterdir fs p of Inl e \<Rightarrow> Inl e | Inr names \<Rightarrow> Inr (names \<noteq> []))
      else Inr False)"

text \<open>
  Writing an entry of a directory: the entry of that name is replaced where it
  stands, a new entry is added at the end.
\<close>

fun set_child :: "(string \<times> node) list \<Rightarrow> string \<Rightarrow> node \<Rightarrow> (string \<times> node) list" where
  "set_child [] x n = [(x, n)]"
| "set_child ((k, v) # es) x n = (if k = x then (x, n) # es else (k, v) # set_child es x n)"

text \<open>
  \<^verbatim>\<open>Path.mkdir(parents=True, exist_ok=True)\<close>: an existing directory is left as it
  is, missing directories are created along the path, and a file on the path raises
  (\<^verbatim>\<open>FileExistsError\<close> at its end, \<^verbatim>\<open>NotADirectoryError\<close> before) with nothing
  created.
\<close>

fun fresh_dirs :: "path \<Rightarrow> node" where
  "fresh_dirs [] = Dir []"
| "fresh_dirs (x # p) = Dir [(x, fresh_dirs p)]"

fun mkdir_parents :: "node \<Rightarrow> path \<Rightarrow> error + node" where
  "mkdir_parents (Dir es) [] = Inr (Dir es)"
| "mkdir_parents (File c) [] = Inl FileExistsError"
| "mkdir_parents (File c) (x # p) = Inl NotADirectoryError"
| "mkdir_parents (Dir es) (x # p) =
     (case map_of es x of
        None \<Rightarrow> Inr (Dir (set_child es x (fresh_dirs p)))
      | Some ch \<Rightarrow>
          (case mkdir_parents ch p of
             Inl e \<Rightarrow> Inl e
           | Inr ch' \<Rightarrow> Inr (Dir (set_child es x ch'))))"

text \<open>Writing a node at a path whose parent is an existing directory.\<close>

fun put :: "node \<Rightarrow> path \<Rightarrow> node \<Rightarrow> error + node" where
  "put fs [] n = Inr n"
| "put (File c) (x # p) n = Inl NotADirectoryError"
| "put (Dir es) [x] n = Inr (Dir (set_child es x n))"
| "put (Dir es) (x # y # p) n =
     (case map_of es x of
        None \<Rightarrow> Inl OSError
      | Some ch \<Rightarrow>
          (case put ch (y # p) n of
             Inl e \<Rightarrow> Inl e
           | Inr ch' \<Rightarrow> Inr (Dir (set_child es x ch'))))"

text \<open>
  \<^verbatim>\<open>shutil.copytree(item, dest, dirs_exist_ok=True)\<close> and \<^verbatim>\<open>shutil.copy2(item, dest)\<close>,
  each called only for a \<^verbatim>\<open>dest\<close> that does not exist, in a directory that does:
  the directory with all it holds, respectively the file, is written at \<^verbatim>\<open>dest\<close>.
\<close>

definition copytree :: "node \<Rightarrow> path \<Rightarrow> path \<Rightarrow> error + node" where
  "copytree fs item dest =
     (case lookup fs item of
        Some (Dir es) \<Rightarrow> put fs dest (Dir es)
      | Some (File c) \<Rightarrow> Inl NotADirectoryError
      | None \<Rightarrow> Inl OSError)"

definition copy2 :: "node \<Rightarrow> path \<Rightarrow> path \<Rightarrow> error + node" where
  "copy2 fs item dest =
     (case lookup fs item of
        Some (File c) \<Rightarrow> put fs dest (File c)
      | Some (Dir es) \<Rightarrow> Inl OSError
      | None \<Rightarrow> Inl OSError)"

definition SKILL_DIR :: path where
  "SKILL_DIR = [''.claude'', ''skills'', ''notebooklm'']"

definition ISOLATED_CHROME_PROFILE :: path where
  "ISOLATED_CHROME_PROFILE = SKILL_DIR @ [''chrome_profile'']"

definition ISOLATED_WEBKIT_PROFILE :: path where
  "ISOLATED_WEBKIT_PROFILE = SKILL_DIR @ [''webkit_profile'']"

definition ISOLATED_FIREFOX_PROFILE :: path where
  "ISOLATED_FIREFOX_PROFILE = SKILL_DIR @ [''firefox_profile'']"

definition MULTI_INSTANCE_PROFILES_DIR :: path where
  "MULTI_INSTANCE_PROFILES_DIR = SKILL_DIR @ [''profiles'']"

text \<open>
  The loop \<^verbatim>\<open>for item in source_profile.iterdir()\<close> over the names of the items. An
  exception ends it with what has been copied so far.
\<close>

fun copy_loop :: "node \<Rightarrow> path \<Rightarrow> path \<Rightarrow> string list \<Rightarrow> error option \<times> node" where
  "copy_loop fs source_profile profile_dir [] = (None, fs)"
| "copy_loop fs source_profile profile_dir (name # names) =
     (let item = source_profile @ [name];
          dest = profile_dir @ [name]
      in if is_dir fs item
         then (if \<not> exists fs dest
               then (case copytree fs item dest of
                       Inl e \<Rightarrow> (Some e, fs)
                     | Inr fs' \<Rightarrow> copy_loop fs' source_profile profile_dir names)
               else copy_loop fs source_profile profile_dir names)
         else (if \<not> exists fs dest
               then (case copy2 fs item dest of
                       Inl e \<Rightarrow> (Some e, fs)
                     | Inr fs' \<Rightarrow> copy_loop fs' source_profile profile_dir names)
               else copy_loop fs source_profile profile_dir names))"

definition source_profile_of :: "string \<Rightarrow> path" where
  "source_profile_of browser_type =
     (if browser_type = ''chrome'' then ISOLATED_CHROME_PROFILE
      else if browser_type = ''safari'' \<or> browser_type = ''webkit'' then ISOLATED_WEBKIT_PROFILE
      else ISOLATED_FIREFOX_PROFILE)"

text \<open>
  The body of the outer \<^verbatim>\<open>if\<close> after \<^verbatim>\<open>mkdir\<close>: the choice of the source profile and
  the copy. The result is the value returned or the exception raised, with the
  filesystem as it is left.
\<close>

definition copy_source_profile :: "node \<Rightarrow> path \<Rightarrow> string \<Rightarrow> (error + path) \<times> node" where
  "copy_source_profile fs profile_dir browser_type =
     (let source_profile = source_profile_of browser_type
      in case exists_and_any fs source_profile of
           Inl e \<Rightarrow> (Inl e, fs)
         | Inr False \<Rightarrow> (Inr profile_dir, fs)
         | Inr True \<Rightarrow>
             (case iterdir fs source_profile of
                Inl e \<Rightarrow> (Inl e, fs)
              | Inr names \<Rightarrow>
                  (case copy_loop fs source_profile profile_dir names of
                     (Some e, fs') \<Rightarrow> (Inl e, fs')
                   | (None, fs') \<Rightarrow> (Inr profile_dir, fs'))))"

definition auto_init_instance_profile ::
  "node \<Rightarrow> string \<Rightarrow> string \<Rightarrow> (error + path) \<times> node" where
  "auto_init_instance_profile fs instance_name browser_type =
     (let profile_dir = MULTI_INSTANCE_PROFILES_DIR @ [instance_name, browser_type]
      in case exists_and_any fs profile_dir of
           Inl e \<Rightarrow> (Inl e, fs)
         | Inr True \<Rightarrow> (Inr profile_dir, fs)
         | Inr False \<Rightarrow>
             (case mkdir_parents fs profile_dir of
                Inl e \<Rightarrow> (Inl e, fs)
              | Inr fs' \<Rightarrow> copy_source_profile fs' profile_dir browser_type))"

text \<open>
  Filesystems for concrete runs: a home directory with a Chrome template profile and
  no instance profile; the same after the profile of instance \<^verbatim>\<open>nb_01\<close> has been
  initialised; and one in which that profile already holds a file of its own that
  differs from the template's.
\<close>

definition chrome_template :: node where
  "chrome_template =
     Dir [(''Cookies'', File ''template cookies''),
          (''Default'', Dir [(''Preferences'', File ''template preferences'')])]"

definition home_with :: "(string \<times> node) list \<Rightarrow> node" where
  "home_with entries =
     Dir [(''.claude'', Dir [(''skills'', Dir [(''notebooklm'',
       Dir ((''chrome_profile'', chrome_template) # entries))])])]"

definition template_home :: node where
  "template_home = home_with []"

definition initialised_home :: node where
  "initialised_home =
     home_with [(''profiles'', Dir [(''nb_01'', Dir [(''chrome'', chrome_template)])])]"

definition customised_home :: node where
  "customised_home =
     home_with [(''profiles'', Dir [(''nb_01'', Dir [(''chrome'',
       Dir [(''Cookies'', File ''my cookies'')])])])]"

section \<open>Properties of state detection\<close>


lemma search_input_loop_values:
  "search_input_loop pg sels = Inr s \<Longrightarrow> s = ''READY'' \<or> s = ''UNKNOWN''"
  by (induction sels) (auto split: sum.splits bool.splits)

lemma detect_search_state_try_values:
  "detect_search_state_try pg = Inr s \<Longrightarrow>
     s = ''READY'' \<or> s = ''PENDING_RESULTS'' \<or> s = ''UNKNOWN''"
  unfolding detect_search_state_try_def
  by (auto split: sum.splits bool.splits dest: search_input_loop_values)

lemma detect_search_state_values:
  "detect_search_state pg \<in> {''READY'', ''PENDING_RESULTS'', ''UNKNOWN''}"
  unfolding detect_search_state_def
  by (auto split: sum.splits dest: detect_search_state_try_values)

lemma detect_mode_values:
  "detect_mode pg \<in> {''chat'', ''source_search'', ''unknown''}"
  unfolding detect_mode_def detect_mode_try_def
  by (auto split: sum.splits bool.splits)











text \<open>
  Claim C10. State detection is total at the public interface. On every page,
  also one whose probes raise, \<^verbatim>\<open>detect_search_state\<close> returns one of
  \<^verbatim>\<open>'READY'\<close>, \<^verbatim>\<open>'PENDING_RESULTS'\<close>, \<^verbatim>\<open>'UNKNOWN'\<close> and \<^verbatim>\<open>detect_mode\<close>
  returns one of \<^verbatim>\<open>'chat'\<close>, \<^verbatim>\<open>'source_search'\<close>, \<^verbatim>\<open>'unknown'\<close>; whenever the
  body of the \<^verbatim>\<open>try\<close> block raises, the value returned is
  \<^verbatim>\<open>'UNKNOWN'\<close>, respectively \<^verbatim>\<open>'unknown'\<close>.
\<close>

theorem state_detection_total:
  "detect_search_state pg \<in> {''READY'', ''PENDING_RESULTS'', ''UNKNOWN''}
   \<and> detect_mode pg \<in> {''chat'', ''source_search'', ''unknown''}
   \<and> (\<forall>e. detect_search_state_try pg = Inl e \<longrightarrow> detect_search_state pg = ''UNKNOWN'')
   \<and> (\<forall>e. detect_mode_try pg = Inl e \<longrightarrow> detect_mode pg = ''unknown'')"
proof (intro conjI allI impI)
  show "detect_search_state pg \<in> {''READY'', ''PENDING_RESULTS'', ''UNKNOWN''}"
    by (rule detect_search_state_values)
  show "detect_mode pg \<in> {''chat'', ''source_search'', ''unknown''}"
    by (rule detect_mode_values)
next
  fix e assume "detect_search_state_try pg = Inl e"
  then show "detect_search_state pg = ''UNKNOWN''"
    by (simp add: detect_search_state_def)
next
  fix e assume "detect_mode_try pg = Inl e"
  then show "detect_mode pg = ''unknown''"
    by (simp add: detect_mode_def)
qed

lemma broken_page_raises:
  "detect_search_state_try broken_page = Inl PlaywrightError"
  "detect_mode_try broken_page = Inl PlaywrightError"
  by (simp_all add: detect_search_state_try_def detect_mode_try_def query_selector_def
      broken_page_def)

theorem state_detection_total_witness:
  "detect_search_state_try broken_page = Inl PlaywrightError
   \<and> detect_mode_try broken_page = Inl PlaywrightError
   \<and> detect_search_state broken_page = ''UNKNOWN''
   \<and> detect_mode broken_page = ''unknown''"
  using state_detection_total[of broken_page] broken_page_raises
  by simp

section \<open>Properties of probe chains\<close>

lemma probe_query_visible:
  "probe pg sel = Inr True \<Longrightarrow>
     \<exists>x. query_selector pg sel = Inr (Some x) \<and> is_visible x = Inr True"
  by (auto simp: probe_def and_is_visible_def split: sum.splits option.splits)

lemma probe_chain_loop_hit:
  "probe pg sel = Inr True \<Longrightarrow>
     probe_chain_loop pg (sel # sels) cur = query_selector pg sel"
  by (auto simp: probe_def split: sum.splits)

lemma probe_chain_loop_skip:
  "probe pg sel = Inr False \<Longrightarrow>
     \<exists>el. probe_chain_loop pg (sel # sels) cur = probe_chain_loop pg sels el"
  by (auto simp: probe_def split: sum.splits)

lemma probe_chain_loop_first:
  "j < length sels \<Longrightarrow> probe pg (sels ! j) = Inr True \<Longrightarrow>
   (\<forall>i<j. probe pg (sels ! i) = Inr False) \<Longrightarrow>
   probe_chain_loop pg sels cur = query_selector pg (sels ! j)"
proof (induction sels arbitrary: j cur)
  case Nil
  then show ?case by simp
next
  case (Cons sel sels)
  show ?case
  proof (cases j)
    case 0
    with Cons.prems(2) have "probe pg sel = Inr True" by simp
    then show ?thesis using 0 by (simp add: probe_chain_loop_hit del: probe_chain_loop.simps)
  next
    case (Suc k)
    with Cons.prems(3) have "probe pg ((sel # sels) ! 0) = Inr False" by blast
    then have "probe pg sel = Inr False" by simp
    then obtain el where step:
      "probe_chain_loop pg (sel # sels) cur = probe_chain_loop pg sels el"
      using probe_chain_loop_skip by blast
    have k: "k < length sels" "probe pg (sels ! k) = Inr True"
      using Cons.prems(1,2) Suc by simp_all
    have "\<forall>i<k. probe pg (sels ! i) = Inr False"
    proof (intro allI impI)
      fix i assume "i < k"
      then have "Suc i < j" using Suc by simp
      with Cons.prems(3) have "probe pg ((sel # sels) ! Suc i) = Inr False" by blast
      then show "probe pg (sels ! i) = Inr False" by simp
    qed
    with k have "probe_chain_loop pg sels el = query_selector pg (sels ! k)"
      by (rule Cons.IH)
    with step Suc show ?thesis by simp
  qed
qed

text \<open>
  Claim C9, as the code has it. The chain is tried in order, each probe contributes
  only its first match (\<^verbatim>\<open>query_selector\<close>), and the element selected is the first
  match of the first probe whose first match is visible: if probe \<open>j\<close> finds a visible
  first match and every earlier probe found no visible first match, the loop ends
  holding the first match of probe \<open>j\<close>, which is visible. A probe whose first match
  is invisible is skipped in favour of a later probe.
\<close>

theorem probe_chain_selects_first_visible_match:
  assumes "j < length sels"
    and "probe pg (sels ! j) = Inr True"
    and "\<forall>i<j. probe pg (sels ! i) = Inr False"
  shows "\<exists>x. probe_chain_loop pg sels cur = Inr (Some x)
           \<and> query_selector pg (sels ! j) = Inr (Some x)
           \<and> is_visible x = Inr True"
proof -
  from assms(2) obtain x where x: "query_selector pg (sels ! j) = Inr (Some x)"
    "is_visible x = Inr True"
    using probe_query_visible by blast
  from assms have "probe_chain_loop pg sels cur = query_selector pg (sels ! j)"
    by (rule probe_chain_loop_first)
  with x show ?thesis by simp
qed

lemma fallback_page_probes:
  "probe fallback_page (type_btn_selectors ! 0) = Inr False"
  "probe fallback_page (type_btn_selectors ! 1) = Inr True"
  "query_selector fallback_page (type_btn_selectors ! 1) = Inr (Some (shown 2))"
  by (simp_all add: probe_def query_selector_def and_is_visible_def fallback_page_def
      empty_page_def shown_def hidden_def type_btn_selectors_def)

theorem probe_chain_selects_first_visible_match_witness:
  "1 < length type_btn_selectors
   \<and> probe fallback_page (type_btn_selectors ! 1) = Inr True
   \<and> probe fallback_page (type_btn_selectors ! 0) = Inr False
   \<and> select_source_type_btn fallback_page = Inr (Some (shown 2))"
proof -
  have len: "1 < length type_btn_selectors" by (simp add: type_btn_selectors_def)
  have before: "\<forall>i<1. probe fallback_page (type_btn_selectors ! i) = Inr False"
    by (simp add: fallback_page_probes)
  from probe_chain_selects_first_visible_match[OF len fallback_page_probes(2) before, of None]
  obtain x where x: "probe_chain_loop fallback_page type_btn_selectors None = Inr (Some x)"
    "query_selector fallback_page (type_btn_selectors ! 1) = Inr (Some x)"
    by blast
  from x(2) fallback_page_probes(3) have "x = shown 2" by simp
  with x(1) have "select_source_type_btn fallback_page = Inr (Some (shown 2))"
    by (simp add: select_source_type_btn_def)
  with len fallback_page_probes(1,2) show ?thesis by blast
qed

text \<open>
  The claim as the specification words it fails where a probe has an invisible first
  match followed by a visible one: the specification selects that visible candidate,
  the code skips the probe and selects the match of the next one.
\<close>

theorem probe_chain_first_visible_candidate_counterexample:
  "select_source_type_btn second_candidate_page = Inr (Some (shown 3))
   \<and> spec_first_visible_candidate second_candidate_page type_btn_selectors = Some (shown 2)
   \<and> shown 3 \<noteq> shown 2"
  by (simp add: select_source_type_btn_def second_candidate_page_def type_btn_selectors_def
      query_selector_def and_is_visible_def empty_page_def shown_def hidden_def
      candidates_def currently_visible_def)

section \<open>Properties of clearing pending results\<close>

lemma clear_temp_sources_ready:
  "detect_search_state (page_of d w) = ''READY'' \<Longrightarrow> clear_temp_sources d w = (True, w)"
  by (simp add: clear_temp_sources_def)

lemma clear_temp_sources_success:
  assumes "clear_temp_sources d w = (True, w')"
  shows "detect_search_state (page_of d w') \<noteq> ''PENDING_RESULTS''"
proof (cases "detect_search_state (page_of d w) = ''READY''")
  case True
  with assms have "w' = w" by (simp add: clear_temp_sources_def)
  with True show ?thesis by simp
next
  case nr: False
  show ?thesis
  proof (cases "detect_search_state (page_of d w) = ''PENDING_RESULTS''")
    case False
    with nr assms show ?thesis by (simp add: clear_temp_sources_def)
  next
    case True
    from assms nr True obtain buttons delete_btn w1 w3 where
      "confirm_loop d (wait_for_timeout d 1000 w1) confirm_selectors = (None, w3)"
      and fin: "(let w4 = wait_for_timeout d 1000 w3;
                  final_state = detect_search_state (page_of d w4)
              in if final_state = ''READY'' then (True, w4)
                 else (final_state \<noteq> ''PENDING_RESULTS'', w4)) = (True, w')"
      unfolding clear_temp_sources_def Let_def
      by (simp split: sum.splits option.splits prod.splits if_splits)
    then show ?thesis
      by (auto simp: Let_def split: if_splits)
  qed
qed

text \<open>
  Claim C6. Called in a state where \<^verbatim>\<open>detect_search_state\<close> yields
  \<^verbatim>\<open>'READY'\<close>, \<^verbatim>\<open>clear_temp_sources\<close> performs no action and returns
  \<^verbatim>\<open>True\<close>. Whenever it returns \<^verbatim>\<open>True\<close>, the search state probed in the state
  it leaves the browser in is not \<^verbatim>\<open>'PENDING_RESULTS'\<close>: on the path that
  acts, that probe is the re-probe the function makes after its actions.
\<close>

theorem clear_temp_sources_sound:
  "(detect_search_state (page_of d w) = ''READY'' \<longrightarrow> clear_temp_sources d w = (True, w))
   \<and> (\<forall>w'. clear_temp_sources d w = (True, w') \<longrightarrow>
         detect_search_state (page_of d w') \<noteq> ''PENDING_RESULTS'')"
proof (intro conjI allI impI)
  assume "detect_search_state (page_of d w) = ''READY''"
  then show "clear_temp_sources d w = (True, w)"
    by (rule clear_temp_sources_ready)
next
  fix w' assume "clear_temp_sources d w = (True, w')"
  then show "detect_search_state (page_of d w') \<noteq> ''PENDING_RESULTS''"
    by (rule clear_temp_sources_success)
qed

lemma two_state_pages:
  "page_of two_state_driver 0 = pending_page (''button'' := Inr [delete_button])"
  "page_of two_state_driver (Suc 0) = ready_page"
  by (simp_all add: two_state_driver_def)

lemma detect_two_state_0:
  "detect_search_state (page_of two_state_driver 0) = ''PENDING_RESULTS''"
  by (simp add: two_state_pages detect_search_state_def detect_search_state_try_def
      query_selector_def and_is_visible_def pending_page_def empty_page_def shown_def
      view_btn_selector_def search_selectors_def)

lemma detect_two_state_1:
  "detect_search_state (page_of two_state_driver (Suc 0)) = ''READY''"
  by (simp add: two_state_pages detect_search_state_def detect_search_state_try_def
      query_selector_def and_is_visible_def ready_page_def empty_page_def shown_def hidden_def
      view_btn_selector_def search_selectors_def)

lemma strip_delete: "strip '' Delete '' = ''Delete''"
  by (simp add: strip_def isspace_def)

lemma delete_btn_loop_two_state:
  "delete_btn_loop [delete_button] = Some delete_button"
  by (simp add: delete_button_def strip_delete)

lemma confirm_loop_two_state:
  "confirm_loop two_state_driver (Suc 0) confirm_selectors = (None, Suc 0)"
  by (simp add: two_state_pages confirm_selectors_def query_selector_def ready_page_def
      empty_page_def view_btn_selector_def search_selectors_def)

lemma clear_two_state_0:
  "clear_temp_sources two_state_driver 0 = (True, Suc 0)"
proof -
  have a: "query_selector_all (page_of two_state_driver 0) ''button'' = Inr [delete_button]"
    by (simp add: two_state_pages query_selector_all_def)
  have b: "click two_state_driver delete_button 0 = Inr (Suc 0)"
    by (simp add: two_state_driver_def delete_button_def)
  have c: "wait_for_timeout two_state_driver ms w = w" for ms w
    by (simp add: two_state_driver_def)
  show ?thesis
    unfolding clear_temp_sources_def
    by (simp add: detect_two_state_0 detect_two_state_1 a b c delete_btn_loop_two_state
        confirm_loop_two_state del: One_nat_def delete_btn_loop.simps)
qed

theorem clear_temp_sources_sound_witness:
  "detect_search_state (page_of two_state_driver (Suc 0)) = ''READY''
   \<and> clear_temp_sources two_state_driver (Suc 0) = (True, Suc 0)
   \<and> clear_temp_sources two_state_driver 0 = (True, Suc 0)
   \<and> detect_search_state (page_of two_state_driver (Suc 0)) \<noteq> ''PENDING_RESULTS''"
  using clear_temp_sources_sound[of two_state_driver "Suc 0"]
    clear_temp_sources_sound[of two_state_driver 0] detect_two_state_1 clear_two_state_0
  by simp

section \<open>Properties of the waiting loop\<close>

lemma answer_lengths:
  "length answer_a = 62" "length answer_b = 62" "length answer_final = 62"
  by (simp_all add: answer_a_def answer_b_def answer_final_def)

lemma answers_distinct:
  "answer_a \<noteq> answer_b" "answer_a \<noteq> answer_final" "answer_b \<noteq> answer_final"
  "answer_b \<noteq> answer_a" "answer_final \<noteq> answer_a" "answer_final \<noteq> answer_b"
  "answer_a \<noteq> []" "answer_b \<noteq> []" "answer_final \<noteq> []"
  by (simp_all add: answer_a_def answer_b_def answer_final_def)

lemma nontrivial_quiet:
  "nontrivial (quiet t) \<longleftrightarrow> 50 < length t"
  by (auto simp: nontrivial_def quiet_def)


lemma tick_quiet_same:
  "50 < length t \<Longrightarrow> tick (quiet t) (t, n) = (3 \<le> Suc n, t, Suc n)"
  by (auto simp: tick_def text_check_def nontrivial_def quiet_def completion_condition_def
      STABLE_THRESHOLD_def)

lemma tick_quiet_changed:
  "50 < length t \<Longrightarrow> t \<noteq> l \<Longrightarrow> tick (quiet t) (l, n) = (False, t, 0)"
  by (auto simp: tick_def text_check_def nontrivial_def quiet_def completion_condition_def
      STABLE_THRESHOLD_def)



















lemma any_visible_text_page:
  "any_visible_loop (text_page t) stop_btn_selectors = Inr False"
  "any_visible_loop (text_page t) loading_selectors = Inr False"
  by (simp_all add: stop_btn_selectors_def loading_selectors_def text_page_def empty_page_def
      query_selector_def and_is_visible_def)

lemma observe_text_page:
  "observe (text_page t) = Inr (quiet (get_latest_response_text (text_page t)))"
  by (simp add: observe_def any_visible_text_page quiet_def)


lemma response_text_page:
  "get_latest_response_text (text_page t) =
     (let text = strip t
      in if text \<noteq> [] \<and> length text > 30 \<and> \<not> str_contains ''Getting the context'' text
         then text else [])"
  by (simp add: get_latest_response_text_def response_selectors_def text_page_def
      empty_page_def query_selector_all_def Let_def)

lemma strip_answers:
  "strip answer_a = answer_a" "strip answer_b = answer_b" "strip answer_final = answer_final"
  by (simp_all add: strip_def isspace_def answer_a_def answer_b_def answer_final_def)

lemma no_placeholder:
  "\<not> str_contains ''Getting the context'' answer_a"
  "\<not> str_contains ''Getting the context'' answer_b"
  "\<not> str_contains ''Getting the context'' answer_final"
  by (simp_all add: answer_a_def answer_b_def answer_final_def)

lemma response_answers:
  "get_latest_response_text (text_page answer_a) = answer_a"
  "get_latest_response_text (text_page answer_b) = answer_b"
  "get_latest_response_text (text_page answer_final) = answer_final"
  by (simp_all add: response_text_page strip_answers no_placeholder answer_lengths
      answers_distinct)

lemma length_strip: "length (strip t) \<le> length t"
proof -
  have "length (dropWhile P xs) \<le> length xs" for P and xs :: string
    by (induction xs) auto
  then have "length (dropWhile isspace (rev (dropWhile isspace t))) \<le> length (rev (dropWhile isspace t))"
    and "length (dropWhile isspace t) \<le> length t" by blast+
  then show ?thesis by (simp add: strip_def)
qed

lemma response_short:
  "length t \<le> 30 \<Longrightarrow> get_latest_response_text (text_page t) = []"
  using length_strip[of t] by (simp add: response_text_page Let_def)

section \<open>Runs of simulated responses\<close>

lemma stream_driver_fields:
  "page_of (stream_driver texts) w = text_page (texts (w div 1000))"
  "wait_for_timeout (stream_driver texts) ms w = w + ms"
  by (simp_all add: stream_driver_def)

lemma wait_loop_stream_step:
  "wait_loop (stream_driver texts) (Suc n) i w st =
     (case tick (stream_obs texts ((w + 1000) div 1000)) st of
        (True, st') \<Rightarrow> Inr (Some (i + 1), w + 1000, st')
      | (False, st') \<Rightarrow> wait_loop (stream_driver texts) n (Suc i) (w + 1000) st')"
  by (simp add: stream_driver_fields observe_text_page stream_obs_def Let_def)

lemma stream_obs_texts:
  "stream_obs changing_texts k = quiet (changing_texts k)"
  "stream_obs paused_texts k = quiet (paused_texts k)"
  "stream_obs steady_texts k = quiet (steady_texts k)"
  "stream_obs late_texts k = quiet (late_texts k)"
  "stream_obs short_texts k = quiet []"
  by (simp_all add: stream_obs_def changing_texts_def paused_texts_def steady_texts_def
      late_texts_def short_texts_def response_answers response_short)






lemma wait_loop_done: "wait_loop d 0 i w st = Inr (None, w, st)"
  by simp

lemma steady_run_from:
  "wait_loop (stream_driver steady_texts) (Suc (Suc (Suc (Suc n)))) 0 0 ([], 0) =
     Inr (Some 4, 4000, answer_final, 3)"
  by (simp add: wait_loop_stream_step stream_obs_texts steady_texts_def
      tick_quiet_same tick_quiet_changed answer_lengths answers_distinct
      del: wait_loop.simps)

lemma steady_run:
  "wait_loop (stream_driver steady_texts) (nat 480) 0 0 ([], 0) =
     Inr (Some 4, 4000, answer_final, 3)"
proof -
  have "nat 480 = Suc (Suc (Suc (Suc 476)))" by simp
  then show ?thesis by (simp only: steady_run_from)
qed

lemma late_run_from:
  "wait_loop (stream_driver late_texts) (Suc (Suc (Suc (Suc 0)))) 0 0 ([], 0) =
     Inr (None, 4000, answer_a, 0)"
  by (simp add: wait_loop_stream_step stream_obs_texts late_texts_def wait_loop_done
      tick_quiet_same tick_quiet_changed answer_lengths answers_distinct
      del: wait_loop.simps)

lemma late_run:
  "wait_loop (stream_driver late_texts) (nat 4) 0 0 ([], 0) = Inr (None, 4000, answer_a, 0)"
proof -
  have "nat 4 = Suc (Suc (Suc (Suc 0)))" by simp
  then show ?thesis by (simp only: late_run_from)
qed

lemma final_phases_stream:
  "final_phases (stream_driver steady_texts) 4000 = Inr answer_final"
  "final_phases (stream_driver late_texts) 4000 = Inr answer_final"
  by (simp_all add: final_phases_def final_world_def stream_driver_fields steady_texts_def
      late_texts_def response_answers answers_distinct)





section \<open>Completion of the waiting loop\<close>




section \<open>The value returned after the wait\<close>

text \<open>
  Claim C4, as the code has it. The code after the loop is the same however the loop
  ended, and the value returned is a bare string. When the maximum wait elapses
  without the completion condition being satisfied, \<^verbatim>\<open>smart_chat\<close> goes through the
  extra waits and returns the response text extracted at the end whenever that text
  is not empty (otherwise what the fallback over the chat area yields, or the empty
  string); the value is the one a run that declared completion in the same browser
  state would return.
\<close>

theorem timeout_returns_extracted_text:
  assumes "wait_loop d (nat max_wait) 0 w ([], 0) = Inr (None, w', st)"
  shows "(get_latest_response_text (page_of d (final_world d w')) \<noteq> [] \<longrightarrow>
            smart_chat_from_phase2 d max_wait w =
              get_latest_response_text (page_of d (final_world d w')))
       \<and> smart_chat_from_phase2 d max_wait w =
            (case final_phases d w' of Inl e \<Rightarrow> [] | Inr response \<Rightarrow> response)
       \<and> (\<forall>d2 max_wait2 w2 k st2.
            wait_loop d2 (nat max_wait2) 0 w2 ([], 0) = Inr (Some k, w', st2)
            \<and> page_of d2 = page_of d \<and> wait_for_timeout d2 = wait_for_timeout d \<longrightarrow>
            smart_chat_from_phase2 d2 max_wait2 w2 = smart_chat_from_phase2 d max_wait w)"
  using assms
  by (simp add: smart_chat_from_phase2_def final_phases_def final_world_def Let_def)

theorem timeout_returns_extracted_text_witness:
  "wait_loop (stream_driver late_texts) (nat 4) 0 0 ([], 0) = Inr (None, 4000, answer_a, 0)
   \<and> get_latest_response_text
        (page_of (stream_driver late_texts) (final_world (stream_driver late_texts) 4000)) =
       answer_final
   \<and> answer_final \<noteq> []
   \<and> smart_chat_from_phase2 (stream_driver late_texts) 4 0 = answer_final"
proof -
  let ?d = "stream_driver late_texts"
  have extracted: "get_latest_response_text (page_of ?d (final_world ?d 4000)) = answer_final"
    by (simp add: final_world_def stream_driver_fields late_texts_def response_answers)
  from timeout_returns_extracted_text[OF late_run] extracted
  have "smart_chat_from_phase2 ?d 4 0 = answer_final"
    by (simp add: answers_distinct)
  with late_run extracted show ?thesis by (simp add: answers_distinct)
qed

text \<open>
  The claim as worded fails in its second half: the value returned carries no tag.
  A response that is complete from the start is declared complete at tick 4, a
  response still changing when a maximum wait of 4 elapses is not, and
  \<^verbatim>\<open>smart_chat\<close> returns the same string for both.
\<close>

theorem timed_out_result_untagged_counterexample:
  "wait_loop (stream_driver steady_texts) (nat 480) 0 0 ([], 0) =
     Inr (Some 4, 4000, answer_final, 3)
   \<and> wait_loop (stream_driver late_texts) (nat 4) 0 0 ([], 0) = Inr (None, 4000, answer_a, 0)
   \<and> smart_chat_from_phase2 (stream_driver steady_texts) 480 0 = answer_final
   \<and> smart_chat_from_phase2 (stream_driver late_texts) 4 0 = answer_final"
  using steady_run late_run
  by (simp add: smart_chat_from_phase2_def final_phases_stream)

section \<open>Properties of instance names\<close>

lemma le_bytes_numeral:
  "le_bytes (numeral n) x = x mod 256 # le_bytes (pred_numeral n) (x div 256)"
  by (simp only: numeral_eq_Suc[of n] le_bytes.simps)

lemma md5_steps_numeral:
  "md5_steps M (numeral n) i st = md5_steps M (pred_numeral n) (i + 1) (md5_step M i st)"
  by (simp only: numeral_eq_Suc[of n] md5_steps.simps, simp)

lemma md5_words_numeral:
  "md5_words (numeral n) bs = le_word (take 4 bs) # md5_words (pred_numeral n) (drop 4 bs)"
  by (simp only: numeral_eq_Suc[of n] md5_words.simps)

lemma replicate_numeral_nat:
  "replicate (numeral n) x = x # replicate (pred_numeral n) x"
  by (simp only: numeral_eq_Suc[of n] replicate.simps)

text \<open>The digest of \<^verbatim>\<open>"Untitled Project"\<close>, step by step.\<close>

lemma untitled_bytes:
  "utf8_encode ''Untitled Project'' =
     [85, 110, 116, 105, 116, 108, 101, 100, 32, 80, 114, 111, 106, 101, 99, 116]"
  by (simp add: utf8_encode_def)

lemma untitled_pad:
  "md5_pad [85, 110, 116, 105, 116, 108, 101, 100, 32, 80, 114, 111, 106, 101, 99, 116] =
     [85, 110, 116, 105, 116, 108, 101, 100, 32, 80, 114, 111, 106, 101, 99, 116, 128, 0,
       0, 0, 0, 0, 0, 0, 0, 0, 0, 0, 0, 0, 0, 0, 0, 0, 0, 0, 0, 0, 0, 0, 0, 0, 0, 0, 0, 0,
       0, 0, 0, 0, 0, 0, 0, 0, 0, 0, 128, 0, 0, 0, 0, 0, 0, 0]"
  by (simp add: md5_pad_def le_bytes_numeral replicate_numeral_nat)

lemma untitled_blocks:
  "md5_blocks 1 [85, 110, 116, 105, 116, 108, 101, 100, 32, 80, 114, 111, 106, 101, 99, 116, 128, 0,
       0, 0, 0, 0, 0, 0, 0, 0, 0, 0, 0, 0, 0, 0, 0, 0, 0, 0, 0, 0, 0, 0, 0, 0, 0, 0, 0, 0,
       0, 0, 0, 0, 0, 0, 0, 0, 0, 0, 128, 0, 0, 0, 0, 0, 0, 0] =
     [[0x69746e55, 0x64656c74, 0x6f725020, 0x7463656a, 0x00000080, 0x00000000, 0x00000000,
       0x00000000, 0x00000000, 0x00000000, 0x00000000, 0x00000000, 0x00000000, 0x00000000,
       0x00000080, 0x00000000]]"
  by (simp add: md5_words_numeral)

lemma untitled_steps:
  "md5_steps [0x69746e55, 0x64656c74, 0x6f725020, 0x7463656a, 0x00000080, 0x00000000, 0x00000000,
       0x00000000, 0x00000000, 0x00000000, 0x00000000, 0x00000000, 0x00000000, 0x00000000,
       0x00000080, 0x00000000] 64 0 md5_init =
     (0x8f316431, 0x6e5b87ef, 0x5b7a9a9a, 0x15bcee8a)"
  by (simp add: md5_steps_numeral md5_step_def md5_init_def md5_K_def md5_s_def rotl32_def
      Let_def)

lemma untitled_md5:
  "md5 (utf8_encode ''Untitled Project'') =
     (0xf6768732, 0x5e293378, 0xf4357798, 0x25ef4300)"
proof -
  have len: "length (md5_pad (utf8_encode ''Untitled Project'')) div 64 = 1"
    unfolding untitled_bytes untitled_pad by simp
  show ?thesis
    unfolding md5_def Let_def len
    unfolding untitled_bytes untitled_pad
    by (simp only: untitled_blocks foldl.simps md5_block_def untitled_steps)
      (simp add: md5_init_def)
qed

lemma untitled_hexdigest:
  "hexdigest (md5 (utf8_encode ''Untitled Project'')) = ''328776f67833295e987735f40043ef25''"
  unfolding untitled_md5
  by (simp add: hexdigest_def hex_word_def hex_byte_def hex_digit_def le_bytes_numeral)

lemma separator_not_digit:
  "c = CHR ''.'' \<or> isspace c \<Longrightarrow> \<not> isdigit c"
  by (auto simp: isdigit_def isspace_def Let_def)

lemma prefix_match_Some:
  assumes "ds \<noteq> []" and "\<forall>x\<in>set ds. isdigit x" and "c = CHR ''.'' \<or> isspace c"
  shows "prefix_match (ds @ c # rest) = Some ds"
proof -
  from assms(3) have nd: "\<not> isdigit c" by (rule separator_not_digit)
  from assms(2) nd have tw: "takeWhile isdigit (ds @ c # rest) = ds"
    by (simp add: takeWhile_tail)
  from assms(2) nd have dw: "dropWhile isdigit (ds @ c # rest) = c # rest"
    by (simp add: dropWhile_append3)
  from assms(1,3) show ?thesis
    unfolding prefix_match_def tw dw Let_def by simp
qed

lemma prefix_match_decompose:
  assumes "prefix_match name = Some ds"
  shows "\<exists>c rest. name = ds @ c # rest \<and> ds \<noteq> [] \<and> (\<forall>x\<in>set ds. isdigit x)
           \<and> (c = CHR ''.'' \<or> isspace c)"
proof -
  let ?rest = "dropWhile isdigit name"
  from assms have ds: "ds = takeWhile isdigit name" and ne: "ds \<noteq> []"
    and r: "?rest \<noteq> []" and sep: "hd ?rest = CHR ''.'' \<or> isspace (hd ?rest)"
    by (auto simp: prefix_match_def Let_def split: if_splits)
  from r obtain c rest where cr: "?rest = c # rest" by (cases ?rest) auto
  have "name = takeWhile isdigit name @ ?rest" by simp
  with ds cr have "name = ds @ c # rest" by simp
  moreover have "\<forall>x\<in>set ds. isdigit x" using ds by (auto dest: set_takeWhileD)
  moreover from sep cr have "c = CHR ''.'' \<or> isspace c" by simp
  ultimately show ?thesis using ne by blast
qed

lemma le_bytes_length: "length (le_bytes n x) = n"
  by (induction n arbitrary: x) simp_all

lemma hex_digit_range:
  "n < 16 \<Longrightarrow> hex_digit n \<in> set ''0123456789abcdef''"
  unfolding hex_digit_def by (rule nth_mem) simp

lemma hex_byte_chars:
  "length (hex_byte b) = 2" "set (hex_byte b) \<subseteq> set ''0123456789abcdef''"
  using hex_digit_range[of "b div 16 mod 16"] hex_digit_range[of "b mod 16"]
  by (simp_all add: hex_byte_def)

lemma concat_hex_bytes:
  "length (concat (map hex_byte bs)) = 2 * length bs"
  "set (concat (map hex_byte bs)) \<subseteq> set ''0123456789abcdef''"
  using hex_byte_chars(2) by (induction bs) (simp_all add: hex_byte_chars(1))

lemma hex_word_chars:
  "length (hex_word x) = 8" "set (hex_word x) \<subseteq> set ''0123456789abcdef''"
  using concat_hex_bytes[of "le_bytes 4 (unat x)"]
  by (simp_all add: hex_word_def le_bytes_length)

lemma hexdigest_chars:
  "length (hexdigest st) = 32" "set (hexdigest st) \<subseteq> set ''0123456789abcdef''"
  using hex_word_chars by (cases st; simp add: hexdigest_def)+

text \<open>
  Claim C7. An identifier begins with digits followed by a separator when it is a
  non-empty run of decimal digits, then a full stop or a whitespace character (the
  class \<^verbatim>\<open>[.\s]\<close> of the source), then anything. For such an identifier
  \<^verbatim>\<open>notebook_to_instance\<close> returns \<^verbatim>\<open>nb_\<close> followed by the digits; for every other
  identifier it returns \<^verbatim>\<open>nb_\<close> followed by the first 8 characters of the
  hexadecimal MD5 digest of the UTF-8 encoding of the identifier, which are 8
  lower-case hexadecimal digits. In particular \<^verbatim>\<open>"01. Research Notes"\<close> resolves to
  \<^verbatim>\<open>nb_01\<close> and \<^verbatim>\<open>"Untitled Project"\<close> to the hash-based key \<^verbatim>\<open>nb_328776f6\<close>.
  Identifiers are strings of code points below 256.
\<close>

theorem notebook_to_instance_resolution:
  "(ds \<noteq> [] \<and> (\<forall>x\<in>set ds. isdigit x) \<and> (c = CHR ''.'' \<or> isspace c) \<longrightarrow>
      notebook_to_instance (ds @ c # rest) = ''nb_'' @ ds)
   \<and> ((\<nexists>ds c rest. name = ds @ c # rest \<and> ds \<noteq> [] \<and> (\<forall>x\<in>set ds. isdigit x)
          \<and> (c = CHR ''.'' \<or> isspace c)) \<longrightarrow>
        notebook_to_instance name = ''nb_'' @ take 8 (hexdigest (md5 (utf8_encode name)))
        \<and> length (take 8 (hexdigest (md5 (utf8_encode name)))) = 8
        \<and> set (take 8 (hexdigest (md5 (utf8_encode name)))) \<subseteq> set ''0123456789abcdef'')
   \<and> notebook_to_instance ''01. Research Notes'' = ''nb_01''
   \<and> notebook_to_instance ''Untitled Project'' = ''nb_328776f6''"
proof (intro conjI impI)
  assume "ds \<noteq> [] \<and> (\<forall>x\<in>set ds. isdigit x) \<and> (c = CHR ''.'' \<or> isspace c)"
  then have "prefix_match (ds @ c # rest) = Some ds" by (simp add: prefix_match_Some)
  then show "notebook_to_instance (ds @ c # rest) = ''nb_'' @ ds"
    by (simp add: notebook_to_instance_def)
next
  assume none: "\<nexists>ds c rest. name = ds @ c # rest \<and> ds \<noteq> [] \<and> (\<forall>x\<in>set ds. isdigit x)
          \<and> (c = CHR ''.'' \<or> isspace c)"
  have "prefix_match name = None"
  proof (cases "prefix_match name")
    case None
    then show ?thesis .
  next
    case (Some ds)
    from prefix_match_decompose[OF this] none show ?thesis by blast
  qed
  then show "notebook_to_instance name = ''nb_'' @ take 8 (hexdigest (md5 (utf8_encode name)))"
    by (simp add: notebook_to_instance_def)
  show "length (take 8 (hexdigest (md5 (utf8_encode name)))) = 8"
    by (simp add: hexdigest_chars(1))
  show "set (take 8 (hexdigest (md5 (utf8_encode name)))) \<subseteq> set ''0123456789abcdef''"
    using hexdigest_chars(2)[of "md5 (utf8_encode name)"] set_take_subset by fast
next
  have "prefix_match (''01'' @ CHR ''.'' # '' Research Notes'') = Some ''01''"
    by (rule prefix_match_Some) (simp_all add: isdigit_def)
  then show "notebook_to_instance ''01. Research Notes'' = ''nb_01''"
    by (simp add: notebook_to_instance_def)
next
  have "prefix_match ''Untitled Project'' = None"
    by (simp add: prefix_match_def isdigit_def)
  then show "notebook_to_instance ''Untitled Project'' = ''nb_328776f6''"
    by (simp add: notebook_to_instance_def untitled_hexdigest)
qed

lemma no_numeric_prefix:
  assumes "name \<noteq> []" and "\<not> isdigit (hd name)"
  shows "\<nexists>ds c rest. name = ds @ c # rest \<and> ds \<noteq> [] \<and> (\<forall>x\<in>set ds. isdigit x)
          \<and> (c = CHR ''.'' \<or> isspace c)"
proof
  assume "\<exists>ds c rest. name = ds @ c # rest \<and> ds \<noteq> [] \<and> (\<forall>x\<in>set ds. isdigit x)
          \<and> (c = CHR ''.'' \<or> isspace c)"
  then obtain ds c rest where d: "name = ds @ c # rest" "ds \<noteq> []" "\<forall>x\<in>set ds. isdigit x"
    by blast
  then have "hd name = hd ds" by simp
  with d(2,3) assms(2) show False by simp
qed

theorem notebook_to_instance_resolution_witness:
  "isdigit (CHR ''0'') \<and> isdigit (CHR ''1'') \<and> \<not> isdigit (CHR ''.'')
   \<and> notebook_to_instance (''01'' @ CHR ''.'' # '' Research Notes'') = ''nb_01''
   \<and> \<not> isdigit (hd ''Untitled Project'')
   \<and> hexdigest (md5 (utf8_encode ''Untitled Project'')) = ''328776f67833295e987735f40043ef25''
   \<and> notebook_to_instance ''Untitled Project'' = ''nb_328776f6''
   \<and> notebook_to_instance ''Untitled Project'' =
       ''nb_'' @ take 8 (hexdigest (md5 (utf8_encode ''Untitled Project'')))"
proof -
  have digits: "''01'' \<noteq> [] \<and> (\<forall>x\<in>set ''01''. isdigit x)
      \<and> (CHR ''.'' = CHR ''.'' \<or> isspace (CHR ''.''))"
    by (simp add: isdigit_def)
  have other: "\<nexists>ds c rest. ''Untitled Project'' = ds @ c # rest \<and> ds \<noteq> []
      \<and> (\<forall>x\<in>set ds. isdigit x) \<and> (c = CHR ''.'' \<or> isspace c)"
    by (rule no_numeric_prefix) (simp_all add: isdigit_def)
  note inst = notebook_to_instance_resolution
    [of "''01''" "CHR ''.''" "'' Research Notes''" "''Untitled Project''"]
  from inst digits
  have a: "notebook_to_instance (''01'' @ CHR ''.'' # '' Research Notes'') = ''nb_01''"
    by simp
  from inst other
  have b: "notebook_to_instance ''Untitled Project'' =
      ''nb_'' @ take 8 (hexdigest (md5 (utf8_encode ''Untitled Project'')))"
    by blast
  from inst have c: "notebook_to_instance ''Untitled Project'' = ''nb_328776f6''"
    by blast
  have d: "isdigit (CHR ''0'') \<and> isdigit (CHR ''1'') \<and> \<not> isdigit (CHR ''.'')
      \<and> \<not> isdigit (hd ''Untitled Project'')"
    by (simp add: isdigit_def)
  from a b c d untitled_hexdigest show ?thesis by simp
qed

section \<open>Properties of lock acquisition\<close>

lemma elapsed_at_lower: "2000 * k \<le> elapsed_at e k"
  by (induction k) simp_all

lemma elapsed_at_exact: "(\<forall>j. overslept e j = 0) \<Longrightarrow> elapsed_at e k = 2000 * k"
  by (induction k) simp_all

lemma acquire_loop_returned:
  "acquire_loop e t k (elapsed_at e k) = Returned m \<longleftrightarrow>
     k \<le> m \<and> \<not> flock_fails e m
     \<and> (\<forall>j. k \<le> j \<and> j < m \<longrightarrow> flock_fails e j \<and> int (elapsed_at e j) < 1000 * t)"
proof (induction e t k "elapsed_at e k" rule: acquire_loop.induct)
  case (1 e t k)
  show ?case
  proof (cases "flock_fails e k")
    case False
    then have "acquire_loop e t k (elapsed_at e k) = Returned k"
      by (simp add: acquire_loop.simps)
    moreover have "(k \<le> m \<and> \<not> flock_fails e m
        \<and> (\<forall>j. k \<le> j \<and> j < m \<longrightarrow> flock_fails e j \<and> int (elapsed_at e j) < 1000 * t))
        \<longleftrightarrow> m = k"
    proof
      assume a: "k \<le> m \<and> \<not> flock_fails e m
        \<and> (\<forall>j. k \<le> j \<and> j < m \<longrightarrow> flock_fails e j \<and> int (elapsed_at e j) < 1000 * t)"
      show "m = k"
      proof (rule ccontr)
        assume "m \<noteq> k"
        with a have "k \<le> k \<and> k < m" by simp
        with a have "flock_fails e k" by blast
        with False show False by simp
      qed
    next
      assume "m = k"
      with False show "k \<le> m \<and> \<not> flock_fails e m
        \<and> (\<forall>j. k \<le> j \<and> j < m \<longrightarrow> flock_fails e j \<and> int (elapsed_at e j) < 1000 * t)"
        by auto
    qed
    ultimately show ?thesis by auto
  next
    case True
    show ?thesis
    proof (cases "1000 * t \<le> int (elapsed_at e k)")
      case over: True
      with True have "acquire_loop e t k (elapsed_at e k) = Exited 1"
        by (simp add: acquire_loop.simps)
      moreover have "\<not> (k \<le> m \<and> \<not> flock_fails e m
        \<and> (\<forall>j. k \<le> j \<and> j < m \<longrightarrow> flock_fails e j \<and> int (elapsed_at e j) < 1000 * t))"
      proof
        assume a: "k \<le> m \<and> \<not> flock_fails e m
          \<and> (\<forall>j. k \<le> j \<and> j < m \<longrightarrow> flock_fails e j \<and> int (elapsed_at e j) < 1000 * t)"
        with True have "m \<noteq> k" by auto
        with a have "k \<le> k \<and> k < m" by simp
        with a have "int (elapsed_at e k) < 1000 * t" by blast
        with over show False by simp
      qed
      ultimately show ?thesis by simp
    next
      case under: False
      with True have step: "acquire_loop e t k (elapsed_at e k) =
          acquire_loop e t (Suc k) (elapsed_at e (Suc k))"
        by (simp add: acquire_loop.simps[of e t k])
      have ih: "acquire_loop e t (Suc k) (elapsed_at e (Suc k)) = Returned m \<longleftrightarrow>
          Suc k \<le> m \<and> \<not> flock_fails e m
          \<and> (\<forall>j. Suc k \<le> j \<and> j < m \<longrightarrow> flock_fails e j \<and> int (elapsed_at e j) < 1000 * t)"
        using True under by (intro 1) simp_all
      have "(Suc k \<le> m \<and> \<not> flock_fails e m
          \<and> (\<forall>j. Suc k \<le> j \<and> j < m \<longrightarrow> flock_fails e j \<and> int (elapsed_at e j) < 1000 * t))
        \<longleftrightarrow> (k \<le> m \<and> \<not> flock_fails e m
          \<and> (\<forall>j. k \<le> j \<and> j < m \<longrightarrow> flock_fails e j \<and> int (elapsed_at e j) < 1000 * t))"
      proof
        assume a: "Suc k \<le> m \<and> \<not> flock_fails e m
          \<and> (\<forall>j. Suc k \<le> j \<and> j < m \<longrightarrow> flock_fails e j \<and> int (elapsed_at e j) < 1000 * t)"
        have "flock_fails e j \<and> int (elapsed_at e j) < 1000 * t" if "k \<le> j \<and> j < m" for j
        proof (cases "j = k")
          case True
          with \<open>flock_fails e k\<close> under show ?thesis by simp
        next
          case False
          with that have "Suc k \<le> j \<and> j < m" by simp
          with a show ?thesis by blast
        qed
        with a show "k \<le> m \<and> \<not> flock_fails e m
          \<and> (\<forall>j. k \<le> j \<and> j < m \<longrightarrow> flock_fails e j \<and> int (elapsed_at e j) < 1000 * t)"
          by simp
      next
        assume a: "k \<le> m \<and> \<not> flock_fails e m
          \<and> (\<forall>j. k \<le> j \<and> j < m \<longrightarrow> flock_fails e j \<and> int (elapsed_at e j) < 1000 * t)"
        with True have "m \<noteq> k" by auto
        with a have "Suc k \<le> m" by simp
        moreover have "flock_fails e j \<and> int (elapsed_at e j) < 1000 * t"
          if "Suc k \<le> j \<and> j < m" for j
        proof -
          from that have "k \<le> j \<and> j < m" by simp
          with a show ?thesis by blast
        qed
        ultimately show "Suc k \<le> m \<and> \<not> flock_fails e m
          \<and> (\<forall>j. Suc k \<le> j \<and> j < m \<longrightarrow> flock_fails e j \<and> int (elapsed_at e j) < 1000 * t)"
          using a by simp
      qed
      with step ih show ?thesis by simp
    qed
  qed
qed

lemma acquire_loop_exited:
  "acquire_loop e t k (elapsed_at e k) = Exited c \<longleftrightarrow>
     c = 1 \<and> (\<exists>m. k \<le> m \<and> (\<forall>j. k \<le> j \<and> j \<le> m \<longrightarrow> flock_fails e j)
                \<and> 1000 * t \<le> int (elapsed_at e m)
                \<and> (\<forall>j. k \<le> j \<and> j < m \<longrightarrow> int (elapsed_at e j) < 1000 * t))"
  (is "?L k \<longleftrightarrow> c = 1 \<and> (\<exists>m. ?Q k m)")
proof (induction e t k "elapsed_at e k" rule: acquire_loop.induct)
  case (1 e t k)
  show ?case
  proof (cases "flock_fails e k")
    case False
    then have "acquire_loop e t k (elapsed_at e k) = Returned k"
      by (simp add: acquire_loop.simps)
    moreover have "\<not> (\<exists>m. k \<le> m \<and> (\<forall>j. k \<le> j \<and> j \<le> m \<longrightarrow> flock_fails e j)
                \<and> 1000 * t \<le> int (elapsed_at e m)
                \<and> (\<forall>j. k \<le> j \<and> j < m \<longrightarrow> int (elapsed_at e j) < 1000 * t))"
    proof
      assume "\<exists>m. k \<le> m \<and> (\<forall>j. k \<le> j \<and> j \<le> m \<longrightarrow> flock_fails e j)
                \<and> 1000 * t \<le> int (elapsed_at e m)
                \<and> (\<forall>j. k \<le> j \<and> j < m \<longrightarrow> int (elapsed_at e j) < 1000 * t)"
      then obtain m where "k \<le> m" "\<forall>j. k \<le> j \<and> j \<le> m \<longrightarrow> flock_fails e j" by blast
      then have "flock_fails e k" by simp
      with False show False by simp
    qed
    ultimately show ?thesis by simp
  next
    case True
    show ?thesis
    proof (cases "1000 * t \<le> int (elapsed_at e k)")
      case over: True
      with True have "acquire_loop e t k (elapsed_at e k) = Exited 1"
        by (simp add: acquire_loop.simps)
      moreover have "\<exists>m. k \<le> m \<and> (\<forall>j. k \<le> j \<and> j \<le> m \<longrightarrow> flock_fails e j)
                \<and> 1000 * t \<le> int (elapsed_at e m)
                \<and> (\<forall>j. k \<le> j \<and> j < m \<longrightarrow> int (elapsed_at e j) < 1000 * t)"
        using True over by (intro exI[of _ k]) auto
      ultimately show ?thesis by auto
    next
      case under: False
      with True have step: "acquire_loop e t k (elapsed_at e k) =
          acquire_loop e t (Suc k) (elapsed_at e (Suc k))"
        by (simp add: acquire_loop.simps[of e t k])
      have ih: "acquire_loop e t (Suc k) (elapsed_at e (Suc k)) = Exited c \<longleftrightarrow>
          c = 1 \<and> (\<exists>m. Suc k \<le> m \<and> (\<forall>j. Suc k \<le> j \<and> j \<le> m \<longrightarrow> flock_fails e j)
                \<and> 1000 * t \<le> int (elapsed_at e m)
                \<and> (\<forall>j. Suc k \<le> j \<and> j < m \<longrightarrow> int (elapsed_at e j) < 1000 * t))"
        using True under by (intro 1) simp_all
      have "(\<exists>m. Suc k \<le> m \<and> (\<forall>j. Suc k \<le> j \<and> j \<le> m \<longrightarrow> flock_fails e j)
                \<and> 1000 * t \<le> int (elapsed_at e m)
                \<and> (\<forall>j. Suc k \<le> j \<and> j < m \<longrightarrow> int (elapsed_at e j) < 1000 * t))
        \<longleftrightarrow> (\<exists>m. k \<le> m \<and> (\<forall>j. k \<le> j \<and> j \<le> m \<longrightarrow> flock_fails e j)
                \<and> 1000 * t \<le> int (elapsed_at e m)
                \<and> (\<forall>j. k \<le> j \<and> j < m \<longrightarrow> int (elapsed_at e j) < 1000 * t))"
      proof
        assume "\<exists>m. Suc k \<le> m \<and> (\<forall>j. Suc k \<le> j \<and> j \<le> m \<longrightarrow> flock_fails e j)
                \<and> 1000 * t \<le> int (elapsed_at e m)
                \<and> (\<forall>j. Suc k \<le> j \<and> j < m \<longrightarrow> int (elapsed_at e j) < 1000 * t)"
        then obtain m where m: "Suc k \<le> m" "\<forall>j. Suc k \<le> j \<and> j \<le> m \<longrightarrow> flock_fails e j"
          "1000 * t \<le> int (elapsed_at e m)"
          "\<forall>j. Suc k \<le> j \<and> j < m \<longrightarrow> int (elapsed_at e j) < 1000 * t"
          by blast
        have f: "flock_fails e j" if "k \<le> j \<and> j \<le> m" for j
        proof (cases "j = k")
          case True
          with \<open>flock_fails e k\<close> show ?thesis by simp
        next
          case False
          with that have "Suc k \<le> j \<and> j \<le> m" by simp
          with m(2) show ?thesis by blast
        qed
        have u: "int (elapsed_at e j) < 1000 * t" if "k \<le> j \<and> j < m" for j
        proof (cases "j = k")
          case True
          with under show ?thesis by simp
        next
          case False
          with that have "Suc k \<le> j \<and> j < m" by simp
          with m(4) show ?thesis by blast
        qed
        from m(1) have "k \<le> m" by simp
        with f u m(3) show "\<exists>m. k \<le> m \<and> (\<forall>j. k \<le> j \<and> j \<le> m \<longrightarrow> flock_fails e j)
                \<and> 1000 * t \<le> int (elapsed_at e m)
                \<and> (\<forall>j. k \<le> j \<and> j < m \<longrightarrow> int (elapsed_at e j) < 1000 * t)"
          by blast
      next
        assume "\<exists>m. k \<le> m \<and> (\<forall>j. k \<le> j \<and> j \<le> m \<longrightarrow> flock_fails e j)
                \<and> 1000 * t \<le> int (elapsed_at e m)
                \<and> (\<forall>j. k \<le> j \<and> j < m \<longrightarrow> int (elapsed_at e j) < 1000 * t)"
        then obtain m where m: "k \<le> m" "\<forall>j. k \<le> j \<and> j \<le> m \<longrightarrow> flock_fails e j"
          "1000 * t \<le> int (elapsed_at e m)"
          "\<forall>j. k \<le> j \<and> j < m \<longrightarrow> int (elapsed_at e j) < 1000 * t"
          by blast
        from m(3) under have "m \<noteq> k" by auto
        with m(1) have sk: "Suc k \<le> m" by simp
        have f: "flock_fails e j" if "Suc k \<le> j \<and> j \<le> m" for j
        proof -
          from that have "k \<le> j \<and> j \<le> m" by simp
          with m(2) show ?thesis by blast
        qed
        have u: "int (elapsed_at e j) < 1000 * t" if "Suc k \<le> j \<and> j < m" for j
        proof -
          from that have "k \<le> j \<and> j < m" by simp
          with m(4) show ?thesis by blast
        qed
        from sk f u m(3)
        show "\<exists>m. Suc k \<le> m \<and> (\<forall>j. Suc k \<le> j \<and> j \<le> m \<longrightarrow> flock_fails e j)
                \<and> 1000 * t \<le> int (elapsed_at e m)
                \<and> (\<forall>j. Suc k \<le> j \<and> j < m \<longrightarrow> int (elapsed_at e j) < 1000 * t)"
          by blast
      qed
      with step ih show ?thesis by simp
    qed
  qed
qed

lemma acquire_loop_not_raised: "acquire_loop e t k el \<noteq> Raised err"
  by (induction e t k el rule: acquire_loop.induct) (subst acquire_loop.simps, simp)

text \<open>
  Claim C1, as the code has it. For every timeout and every environment
  \<^verbatim>\<open>_acquire_lock\<close> ends in exactly one of three ways. It returns only straight after
  a call of \<^verbatim>\<open>flock\<close> that granted the exclusive lock, which is the first call to
  succeed, every earlier call having failed before the timeout had elapsed. It exits
  the process, with code 1, at the first failed call that finds the timeout elapsed,
  no call having succeeded. Or creating the directory or opening the lock file raises,
  and the exception leaves the function with no call of \<^verbatim>\<open>flock\<close> made. Call \<open>k\<close> is
  made no earlier than \<open>2 k\<close> seconds after the start, and exactly then when no
  iteration takes longer than its sleep of two seconds.
\<close>

theorem acquire_lock_returns_only_with_lock:
  "(acquire_lock e timeout = Returned k \<longleftrightarrow>
      mkdir_error e = None \<and> open_error e = None \<and> \<not> flock_fails e k
      \<and> (\<forall>j. j < k \<longrightarrow> flock_fails e j \<and> int (elapsed_at e j) < 1000 * timeout))
   \<and> (acquire_lock e timeout = Exited c \<longleftrightarrow>
        mkdir_error e = None \<and> open_error e = None \<and> c = 1
        \<and> (\<exists>m. (\<forall>j. j \<le> m \<longrightarrow> flock_fails e j)
               \<and> 1000 * timeout \<le> int (elapsed_at e m)
               \<and> (\<forall>j. j < m \<longrightarrow> int (elapsed_at e j) < 1000 * timeout)))
   \<and> (acquire_lock e timeout = Raised err \<longleftrightarrow>
        mkdir_error e = Some err \<or> (mkdir_error e = None \<and> open_error e = Some err))
   \<and> (mkdir_error e = None \<and> open_error e = None \<longrightarrow>
        (\<exists>n. acquire_lock e timeout = Returned n) \<or> acquire_lock e timeout = Exited 1)
   \<and> 2000 * k \<le> elapsed_at e k
   \<and> ((\<forall>j. overslept e j = 0) \<longrightarrow> elapsed_at e k = 2000 * k)"
proof -
  have r0: "acquire_loop e timeout 0 0 = Returned k \<longleftrightarrow>
      \<not> flock_fails e k
      \<and> (\<forall>j. j < k \<longrightarrow> flock_fails e j \<and> int (elapsed_at e j) < 1000 * timeout)"
    using acquire_loop_returned[of e timeout 0 k] by simp
  have x0: "acquire_loop e timeout 0 0 = Exited c \<longleftrightarrow>
      c = 1 \<and> (\<exists>m. (\<forall>j. j \<le> m \<longrightarrow> flock_fails e j)
               \<and> 1000 * timeout \<le> int (elapsed_at e m)
               \<and> (\<forall>j. j < m \<longrightarrow> int (elapsed_at e j) < 1000 * timeout))"
    using acquire_loop_exited[of e timeout 0 c] by simp
  have never: "acquire_loop e timeout 0 0 \<noteq> Raised err"
    by (rule acquire_loop_not_raised)
  have r: "acquire_lock e timeout = Returned k \<longleftrightarrow>
      mkdir_error e = None \<and> open_error e = None \<and> \<not> flock_fails e k
      \<and> (\<forall>j. j < k \<longrightarrow> flock_fails e j \<and> int (elapsed_at e j) < 1000 * timeout)"
    unfolding acquire_lock_def
    by (simp only: r0 split: option.splits) auto
  have x: "acquire_lock e timeout = Exited c \<longleftrightarrow>
        mkdir_error e = None \<and> open_error e = None \<and> c = 1
        \<and> (\<exists>m. (\<forall>j. j \<le> m \<longrightarrow> flock_fails e j)
               \<and> 1000 * timeout \<le> int (elapsed_at e m)
               \<and> (\<forall>j. j < m \<longrightarrow> int (elapsed_at e j) < 1000 * timeout))"
    unfolding acquire_lock_def
    by (simp only: x0 split: option.splits) auto
  have f: "acquire_lock e timeout = Raised err \<longleftrightarrow>
        mkdir_error e = Some err \<or> (mkdir_error e = None \<and> open_error e = Some err)"
    using never unfolding acquire_lock_def by (simp split: option.splits)
  have d: "(\<exists>n. acquire_lock e timeout = Returned n) \<or> acquire_lock e timeout = Exited 1"
    if ok: "mkdir_error e = None \<and> open_error e = None"
  proof (cases "acquire_loop e timeout 0 0")
    case (Returned n)
    with ok show ?thesis by (simp add: acquire_lock_def)
  next
    case (Exited c')
    with acquire_loop_exited[of e timeout 0 c'] have "c' = 1" by simp
    with Exited ok show ?thesis by (simp add: acquire_lock_def)
  next
    case (Raised err')
    with acquire_loop_not_raised show ?thesis by blast
  qed
  from r x f d elapsed_at_lower[of k e] elapsed_at_exact[of e k] show ?thesis by blast
qed

lemma busy_elapsed:
  "elapsed_at (busy_for n) k = 2000 * k" "elapsed_at busy_for_ever k = 2000 * k"
  by (simp_all add: elapsed_at_exact busy_for_def busy_for_ever_def)

theorem acquire_lock_returns_only_with_lock_witness:
  "mkdir_error (busy_for 3) = None \<and> open_error (busy_for 3) = None
   \<and> flock_fails (busy_for 3) 2 \<and> \<not> flock_fails (busy_for 3) 3
   \<and> elapsed_at (busy_for 3) 3 = 6000
   \<and> acquire_lock (busy_for 3) 30 = Returned 3
   \<and> flock_fails busy_for_ever 3
   \<and> elapsed_at busy_for_ever 2 = 4000 \<and> elapsed_at busy_for_ever 3 = 6000
   \<and> acquire_lock busy_for_ever 5 = Exited 1"
proof -
  have env: "mkdir_error (busy_for 3) = None \<and> open_error (busy_for 3) = None"
    "mkdir_error busy_for_ever = None \<and> open_error busy_for_ever = None"
    "flock_fails (busy_for 3) j \<longleftrightarrow> j < 3" "flock_fails busy_for_ever j" for j
    by (simp_all add: busy_for_def busy_for_ever_def)
  have granted: "\<not> flock_fails (busy_for 3) 3
      \<and> (\<forall>j. j < 3 \<longrightarrow> flock_fails (busy_for 3) j
            \<and> int (elapsed_at (busy_for 3) j) < 1000 * 30)"
    by (simp add: env busy_elapsed)
  have timed_out: "\<exists>m. (\<forall>j. j \<le> m \<longrightarrow> flock_fails busy_for_ever j)
      \<and> 1000 * 5 \<le> int (elapsed_at busy_for_ever m)
      \<and> (\<forall>j. j < m \<longrightarrow> int (elapsed_at busy_for_ever j) < 1000 * 5)"
    by (intro exI[of _ 3]) (simp add: env busy_elapsed)
  from acquire_lock_returns_only_with_lock[of "busy_for 3" 30 3] env(1) granted
  have a: "acquire_lock (busy_for 3) 30 = Returned 3" by blast
  from acquire_lock_returns_only_with_lock[of busy_for_ever 5 3 1] env(2) timed_out
  have b: "acquire_lock busy_for_ever 5 = Exited 1" by blast
  from a b show ?thesis by (simp add: env busy_elapsed)
qed

text \<open>
  The claim as worded leaves out the third way: when the lock file cannot be opened
  (it belongs to another user, say), \<^verbatim>\<open>open\<close> raises before the first call of
  \<^verbatim>\<open>flock\<close>, and \<^verbatim>\<open>_acquire_lock\<close> neither returns with the lock nor exits the
  process after the timeout.
\<close>

theorem acquire_lock_unopenable_counterexample:
  "acquire_lock unopenable 30 = Raised OSError
   \<and> (\<forall>k. acquire_lock unopenable 30 \<noteq> Returned k)
   \<and> (\<forall>c. acquire_lock unopenable 30 \<noteq> Exited c)"
  by (simp add: acquire_lock_def unopenable_def)

section \<open>Properties of instance profiles\<close>

lemma map_of_set_child: "map_of (set_child es x n) x = Some n"
  by (induction es x n rule: set_child.induct) simp_all

lemma set_child_same: "map_of es x = Some n \<Longrightarrow> set_child es x n = es"
  by (induction es x n rule: set_child.induct) (auto split: if_splits)

lemma set_child_nonempty: "set_child es x n \<noteq> []"
  by (induction es x n rule: set_child.induct) simp_all

lemma lookup_fresh_dirs: "lookup (fresh_dirs p) p = Some (Dir [])"
  by (induction p) simp_all

lemma lookup_append:
  "lookup fs (p @ q) = (case lookup fs p of None \<Rightarrow> None | Some n \<Rightarrow> lookup n q)"
  by (induction fs p rule: lookup.induct) (simp_all split: option.splits)

lemma mkdir_parents_dir:
  "mkdir_parents fs p = Inr fs' \<Longrightarrow> \<exists>es. lookup fs' p = Some (Dir es)"
proof (induction fs p arbitrary: fs' rule: mkdir_parents.induct)
  case (4 es x p)
  show ?case
  proof (cases "map_of es x")
    case None
    with 4 show ?thesis by (auto simp: map_of_set_child lookup_fresh_dirs)
  next
    case (Some ch)
    with 4 show ?thesis by (auto simp: map_of_set_child split: sum.splits)
  qed
qed auto

lemma mkdir_parents_existing:
  "lookup fs p = Some (Dir ds) \<Longrightarrow> mkdir_parents fs p = Inr fs"
proof (induction fs p rule: mkdir_parents.induct)
  case (4 es x p)
  then show ?case by (auto simp: set_child_same split: option.splits)
qed auto

lemma put_child:
  "lookup fs p = Some (Dir ds) \<Longrightarrow>
     \<exists>fs'. put fs (p @ [x]) n = Inr fs' \<and> lookup fs' p = Some (Dir (set_child ds x n))"
proof (induction fs p arbitrary: ds rule: lookup.induct)
  case (1 fs)
  then show ?case by simp
next
  case (2 c y p)
  then show ?case by simp
next
  case (3 es y p)
  from 3(2) obtain ch where ch: "map_of es y = Some ch" "lookup ch p = Some (Dir ds)"
    by (auto split: option.splits)
  from 3(1)[OF ch] obtain ch' where ch': "put ch (p @ [x]) n = Inr ch'"
    "lookup ch' p = Some (Dir (set_child ds x n))" by blast
  obtain z q where zq: "p @ [x] = z # q" by (cases "p @ [x]") auto
  with ch ch' have "put (Dir es) (y # p @ [x]) n = Inr (Dir (set_child es y ch'))"
    by simp
  moreover have "lookup (Dir (set_child es y ch')) (y # p) = Some (Dir (set_child ds x n))"
    using ch'(2) by (simp add: map_of_set_child)
  ultimately show ?case by auto
qed

lemma exists_and_any_dir:
  "lookup fs p = Some (Dir ds) \<Longrightarrow> exists_and_any fs p = Inr (ds \<noteq> [])"
  by (simp add: exists_and_any_def exists_def iterdir_def)

lemma copy_loop_keeps_entries:
  "lookup fs pd = Some (Dir ds) \<Longrightarrow> ds \<noteq> [] \<Longrightarrow>
     \<exists>ds'. lookup (snd (copy_loop fs src pd names)) pd = Some (Dir ds') \<and> ds' \<noteq> []"
proof (induction names arbitrary: fs ds)
  case Nil
  then show ?case by simp
next
  case (Cons name names)
  have written: "\<exists>ds'. lookup (snd (copy_loop fs' src pd names)) pd = Some (Dir ds') \<and> ds' \<noteq> []"
    if "put fs (pd @ [name]) n = Inr fs'" for n fs'
  proof -
    from put_child[OF Cons.prems(1), of name n] that
    have "lookup fs' pd = Some (Dir (set_child ds name n))" by auto
    then show ?thesis by (rule Cons.IH) (rule set_child_nonempty)
  qed
  have skipped: "\<exists>ds'. lookup (snd (copy_loop fs src pd names)) pd = Some (Dir ds') \<and> ds' \<noteq> []"
    using Cons.prems by (rule Cons.IH)
  have stopped: "\<exists>ds'. lookup fs pd = Some (Dir ds') \<and> ds' \<noteq> []"
    using Cons.prems by simp
  show ?case
    using written skipped stopped
    by (auto simp: Let_def copytree_def copy2_def split: sum.splits option.splits node.splits)
qed

lemma copy_loop_first:
  assumes pd: "lookup fs pd = Some (Dir ds)"
    and names: "names \<noteq> []"
    and item: "lookup fs (src @ [hd names]) \<noteq> None"
  shows "\<exists>ds'. lookup (snd (copy_loop fs src pd names)) pd = Some (Dir ds') \<and> ds' \<noteq> []"
proof (cases "ds = []")
  case False
  with pd show ?thesis by (rule copy_loop_keeps_entries)
next
  case True
  from names obtain name rest where nr: "names = name # rest" by (cases names) auto
  from item nr obtain n where n: "lookup fs (src @ [name]) = Some n" by auto
  from pd True have absent: "\<not> exists fs (pd @ [name])"
    by (simp add: exists_def lookup_append)
  from put_child[OF pd, of name n] obtain fs' where fs': "put fs (pd @ [name]) n = Inr fs'"
    "lookup fs' pd = Some (Dir (set_child ds name n))" by blast
  from fs'(2) have rest: "\<exists>ds'. lookup (snd (copy_loop fs' src pd rest)) pd = Some (Dir ds')
      \<and> ds' \<noteq> []"
    by (rule copy_loop_keeps_entries) (rule set_child_nonempty)
  show ?thesis
  proof (cases n)
    case (File c)
    with n have "\<not> is_dir fs (src @ [name])" "copy2 fs (src @ [name]) (pd @ [name]) = Inr fs'"
      using fs'(1) by (simp_all add: is_dir_def copy2_def)
    with absent rest nr show ?thesis by (simp add: Let_def)
  next
    case (Dir es)
    with n have "is_dir fs (src @ [name])" "copytree fs (src @ [name]) (pd @ [name]) = Inr fs'"
      using fs'(1) by (simp_all add: is_dir_def copytree_def)
    with absent rest nr show ?thesis by (simp add: Let_def)
  qed
qed

lemma iterdir_first_exists:
  assumes "iterdir fs src = Inr names" and "names \<noteq> []"
  shows "lookup fs (src @ [hd names]) \<noteq> None"
proof -
  from assms(1) obtain es where es: "lookup fs src = Some (Dir es)" "names = map fst es"
    by (auto simp: iterdir_def split: option.splits node.splits)
  with assms(2) obtain k v rest where "es = (k, v) # rest" by (cases es) auto
  with es show ?thesis by (simp add: lookup_append)
qed

lemma copy_source_profile_cases:
  assumes "lookup fs pd = Some (Dir ds)"
  shows "snd (copy_source_profile fs pd b) = fs
       \<or> (\<exists>ds'. lookup (snd (copy_source_profile fs pd b)) pd = Some (Dir ds') \<and> ds' \<noteq> [])"
proof (cases "exists_and_any fs (source_profile_of b)")
  case (Inl e)
  then show ?thesis by (simp add: copy_source_profile_def)
next
  case (Inr any)
  show ?thesis
  proof (cases any)
    case False
    with Inr show ?thesis by (simp add: copy_source_profile_def)
  next
    case True
    show ?thesis
    proof (cases "iterdir fs (source_profile_of b)")
      case (Inl e)
      with Inr True show ?thesis by (simp add: copy_source_profile_def)
    next
      case names: (Inr names)
      with Inr True have ne: "names \<noteq> []"
        by (auto simp: exists_and_any_def split: if_splits)
      from iterdir_first_exists[OF names ne]
      have "lookup fs (source_profile_of b @ [hd names]) \<noteq> None" .
      with assms ne
      have "\<exists>ds'. lookup (snd (copy_loop fs (source_profile_of b) pd names)) pd = Some (Dir ds')
          \<and> ds' \<noteq> []"
        by (rule copy_loop_first)
      moreover have "snd (copy_source_profile fs pd b) =
          snd (copy_loop fs (source_profile_of b) pd names)"
        using Inr True names
        by (simp add: copy_source_profile_def split: prod.splits option.splits)
      ultimately show ?thesis by simp
    qed
  qed
qed

lemma auto_init_populated:
  "lookup fs (MULTI_INSTANCE_PROFILES_DIR @ [i, b]) = Some (Dir ds) \<Longrightarrow> ds \<noteq> [] \<Longrightarrow>
     auto_init_instance_profile fs i b = (Inr (MULTI_INSTANCE_PROFILES_DIR @ [i, b]), fs)"
  by (simp add: auto_init_instance_profile_def exists_and_any_dir)

lemma auto_init_settled:
  assumes "lookup fs (MULTI_INSTANCE_PROFILES_DIR @ [i, b]) = Some (Dir ds)"
    and "snd (copy_source_profile fs (MULTI_INSTANCE_PROFILES_DIR @ [i, b]) b) = fs"
  shows "snd (auto_init_instance_profile fs i b) = fs"
  using assms
  by (cases "ds = []")
    (simp_all add: auto_init_instance_profile_def exists_and_any_dir mkdir_parents_existing)

lemma auto_init_twice:
  "snd (auto_init_instance_profile (snd (auto_init_instance_profile fs i b)) i b) =
     snd (auto_init_instance_profile fs i b)"
proof -
  let ?pd = "MULTI_INSTANCE_PROFILES_DIR @ [i, b]"
  let ?fs1 = "snd (auto_init_instance_profile fs i b)"
  have "?fs1 = fs
      \<or> (\<exists>fsm. exists_and_any fs ?pd = Inr False \<and> mkdir_parents fs ?pd = Inr fsm
            \<and> ?fs1 = snd (copy_source_profile fsm ?pd b))"
    by (auto simp: auto_init_instance_profile_def Let_def split: sum.splits bool.splits)
  then consider (same) "?fs1 = fs"
    | (init) fsm where "exists_and_any fs ?pd = Inr False" "mkdir_parents fs ?pd = Inr fsm"
        "?fs1 = snd (copy_source_profile fsm ?pd b)"
    by blast
  then show ?thesis
  proof cases
    case same
    then show ?thesis by simp
  next
    case init
    from mkdir_parents_dir[OF init(2)] obtain ds where ds: "lookup fsm ?pd = Some (Dir ds)"
      by blast
    from copy_source_profile_cases[OF ds, of b]
    show ?thesis
    proof
      assume unchanged: "snd (copy_source_profile fsm ?pd b) = fsm"
      with ds have "snd (auto_init_instance_profile fsm i b) = fsm"
        by (rule auto_init_settled)
      with init(3) unchanged show ?thesis by simp
    next
      assume "\<exists>ds'. lookup (snd (copy_source_profile fsm ?pd b)) ?pd = Some (Dir ds')
          \<and> ds' \<noteq> []"
      with init(3) obtain ds' where "lookup ?fs1 ?pd = Some (Dir ds')" "ds' \<noteq> []" by auto
      then have "auto_init_instance_profile ?fs1 i b = (Inr ?pd, ?fs1)"
        by (rule auto_init_populated)
      then show ?thesis by simp
    qed
  qed
qed

lemma auto_init_existing_child:
  assumes "lookup fs (MULTI_INSTANCE_PROFILES_DIR @ [i, b] @ [name]) = Some n"
  shows "auto_init_instance_profile fs i b = (Inr (MULTI_INSTANCE_PROFILES_DIR @ [i, b]), fs)"
proof -
  let ?pd = "MULTI_INSTANCE_PROFILES_DIR @ [i, b]"
  from assms have "lookup fs (?pd @ [name]) = Some n" by simp
  then obtain d where d: "lookup fs ?pd = Some d" "lookup d [name] = Some n"
    unfolding lookup_append[of fs ?pd "[name]"] by (auto split: option.splits)
  from d(2) obtain ds where ds: "d = Dir ds" "map_of ds name = Some n"
    by (cases d) (auto split: option.splits)
  then have "ds \<noteq> []" by auto
  with d(1) ds(1) show ?thesis by (simp add: auto_init_populated)
qed

text \<open>
  Claim C8. For every filesystem, instance name and browser type, a second call of
  \<^verbatim>\<open>auto_init_instance_profile\<close> straight after a first one leaves the filesystem
  as the first call left it, whether the first call returned or raised. And when the
  profile directory of the instance already holds an entry, a file or a directory,
  the call changes nothing at all: it returns the profile directory and that entry is
  what it was, whatever the template profile holds under the same name.
\<close>

theorem auto_init_instance_profile_idempotent:
  "snd (auto_init_instance_profile (snd (auto_init_instance_profile fs i b)) i b) =
     snd (auto_init_instance_profile fs i b)
   \<and> (lookup fs (MULTI_INSTANCE_PROFILES_DIR @ [i, b] @ [name]) = Some n \<longrightarrow>
        auto_init_instance_profile fs i b = (Inr (MULTI_INSTANCE_PROFILES_DIR @ [i, b]), fs)
        \<and> lookup (snd (auto_init_instance_profile fs i b))
             (MULTI_INSTANCE_PROFILES_DIR @ [i, b] @ [name]) = Some n)"
proof (intro conjI impI)
  show "snd (auto_init_instance_profile (snd (auto_init_instance_profile fs i b)) i b) =
     snd (auto_init_instance_profile fs i b)"
    by (rule auto_init_twice)
next
  assume a: "lookup fs (MULTI_INSTANCE_PROFILES_DIR @ [i, b] @ [name]) = Some n"
  then show same: "auto_init_instance_profile fs i b =
      (Inr (MULTI_INSTANCE_PROFILES_DIR @ [i, b]), fs)"
    by (rule auto_init_existing_child)
  from a show "lookup (snd (auto_init_instance_profile fs i b))
      (MULTI_INSTANCE_PROFILES_DIR @ [i, b] @ [name]) = Some n"
    unfolding same by simp
qed

lemma profile_paths:
  "MULTI_INSTANCE_PROFILES_DIR @ [''nb_01'', ''chrome''] =
     [''.claude'', ''skills'', ''notebooklm'', ''profiles'', ''nb_01'', ''chrome'']"
  "source_profile_of ''chrome'' = [''.claude'', ''skills'', ''notebooklm'', ''chrome_profile'']"
  by (simp_all add: MULTI_INSTANCE_PROFILES_DIR_def SKILL_DIR_def source_profile_of_def
      ISOLATED_CHROME_PROFILE_def)

lemma first_call_copies:
  "auto_init_instance_profile template_home ''nb_01'' ''chrome'' =
     (Inr [''.claude'', ''skills'', ''notebooklm'', ''profiles'', ''nb_01'', ''chrome''],
      initialised_home)"
  unfolding auto_init_instance_profile_def copy_source_profile_def profile_paths Let_def
  by (simp add: template_home_def initialised_home_def home_with_def chrome_template_def
      exists_and_any_def exists_def iterdir_def is_dir_def copytree_def copy2_def)

theorem auto_init_instance_profile_idempotent_witness:
  "snd (auto_init_instance_profile template_home ''nb_01'' ''chrome'') = initialised_home
   \<and> initialised_home \<noteq> template_home
   \<and> snd (auto_init_instance_profile initialised_home ''nb_01'' ''chrome'') = initialised_home
   \<and> lookup customised_home (MULTI_INSTANCE_PROFILES_DIR @ [''nb_01'', ''chrome''] @ [''Cookies''])
       = Some (File ''my cookies'')
   \<and> lookup customised_home (ISOLATED_CHROME_PROFILE @ [''Cookies''])
       = Some (File ''template cookies'')
   \<and> auto_init_instance_profile customised_home ''nb_01'' ''chrome'' =
       (Inr (MULTI_INSTANCE_PROFILES_DIR @ [''nb_01'', ''chrome'']), customised_home)"
proof -
  have first: "snd (auto_init_instance_profile template_home ''nb_01'' ''chrome'') =
      initialised_home"
    by (simp add: first_call_copies)
  have changed: "initialised_home \<noteq> template_home"
    by (simp add: initialised_home_def template_home_def home_with_def)
  have mine: "lookup customised_home
      (MULTI_INSTANCE_PROFILES_DIR @ [''nb_01'', ''chrome''] @ [''Cookies'']) =
      Some (File ''my cookies'')"
    by (simp add: customised_home_def home_with_def MULTI_INSTANCE_PROFILES_DIR_def
        SKILL_DIR_def)
  have theirs: "lookup customised_home (ISOLATED_CHROME_PROFILE @ [''Cookies'']) =
      Some (File ''template cookies'')"
    by (simp add: customised_home_def home_with_def ISOLATED_CHROME_PROFILE_def
        SKILL_DIR_def chrome_template_def)
  from auto_init_instance_profile_idempotent[of template_home "''nb_01''" "''chrome''"] first
  have second: "snd (auto_init_instance_profile initialised_home ''nb_01'' ''chrome'') =
      initialised_home"
    by simp
  from auto_init_instance_profile_idempotent
    [of customised_home "''nb_01''" "''chrome''" "''Cookies''" "File ''my cookies''"] mine
  have kept: "auto_init_instance_profile customised_home ''nb_01'' ''chrome'' =
      (Inr (MULTI_INSTANCE_PROFILES_DIR @ [''nb_01'', ''chrome'']), customised_home)"
    by blast
  from first changed second mine theirs kept show ?thesis by blast
qed

end
